theory Spec2Isabelle
  imports Main
begin

section \<open>The coroutine runtime of M2-libco/co.c\<close>

subsection \<open>Data model\<close>

text \<open>The enum \<open>CoStatus\<close> of co.c.  The specification calls \<open>CO_STATUS_RUNNING\<close>
  "Runnable": it is the status of the coroutine that executes and of every coroutine
  that has been switched away from and can be resumed.\<close>

datatype CoStatus = CO_STATUS_NEW | CO_STATUS_RUNNING | CO_STATUS_WAITING | CO_STATUS_DEAD

text \<open>A \<open>jmp_buf\<close> filled by the \<open>setjmp\<close> of \<open>co_yield\<close> holds the stack and the
  program counter of that activation of \<open>co_yield\<close>.  What a later \<open>longjmp\<close> continues
  with is decided by the place \<open>co_yield\<close> was called from: the code of an entry
  function (or of \<open>main\<close>), line 191 inside \<open>co_wait\<close> (whose argument \<open>coroutine\<close> lives
  in the suspended frame), or line 272 inside \<open>co_yield\<close> itself, after the entry
  function has returned.\<close>

datatype call_site = Site_user | Site_wait nat | Site_exit

text \<open>\<open>struct co\<close>.  Pointers to coroutine records are natural numbers, a pointer that
  may be \<open>NULL\<close> is an option.  The entry function and its argument are opaque values.
  The private stack is plain storage and carries no field of its own.\<close>

record co =
  name :: string
  func :: "nat option"
  arg :: "nat option"
  status :: CoStatus
  waiter :: "nat option"
  jmp_ctx :: "call_site option"

text \<open>The ways a call of the library can end the process instead of returning.\<close>

datatype halt =
    Exit_0            \<comment> \<open>\<open>exit(0)\<close>, line 239\<close>
  | Assert_failed     \<comment> \<open>a failed \<open>assert\<close>, lines 207, 211, 277\<close>
  | Segfault          \<comment> \<open>a \<open>NULL\<close> or dangling pointer is dereferenced or called\<close>
  | Undefined         \<comment> \<open>\<open>longjmp\<close> to a context that was never saved, or a return through
                          a frame that is gone: what follows depends on the stack contents\<close>

text \<open>The global state: the allocated records, the circular list behind \<open>co_queue\<close>
  and \<open>current_co\<close>.  The list \<open>co_queue\<close> holds the \<open>coroutine\<close> fields of the nodes in
  \<open>next\<close> order, starting at the node the C variable \<open>co_queue\<close> points to; \<open>[]\<close> is
  \<open>NULL\<close>.  \<open>brk\<close> is the next address \<open>malloc\<close> hands out (addresses are not reused and
  \<open>malloc\<close> does not fail).  Two logs record what the program does to its
  environment: \<open>spawn_log\<close> the arguments of every \<open>co_start\<close>, \<open>entry_calls\<close> every
  call made by \<open>stack_switch_call\<close>.

  The last three components describe the machine below the C text, as far as the two
  \<open>asm\<close> statements of lines 65-103 make the program depend on it.

  \<^item> \<open>optimised\<close> tells how co.c was compiled.  Neither \<open>asm\<close> statement declares a
    \<open>memory\<close> clobber, so for the compiler the store of line 251 is followed by the store
    of line 264 to the same field with no access in between: an optimising compiler
    (\<open>-O1\<close> and above) removes the store of line 251 and inlines \<open>stack_switch_call\<close> into
    \<open>co_yield\<close>; without optimisation every store is executed and \<open>stack_switch_call\<close> is a
    function with a frame of its own.
  \<^item> \<open>on_stack\<close> is the record on whose stack the processor executes; the primordial
    record stands for the stack of the process.
  \<^item> \<open>launch p = Some l\<close> says that the frame of the \<open>stack_switch_call\<close> which called the
    entry function of \<open>p\<close> lies on the stack of \<open>l\<close> and has not been overwritten.  The
    \<open>asm\<close> statement of \<open>stack_switch_call\<close> sets the stack pointer and never restores it,
    so in the unoptimised build the entry function returns through this frame.\<close>

record runtime =
  heap :: "nat \<Rightarrow> co option"
  co_queue :: "nat list"
  current_co :: "nat option"
  brk :: nat
  spawn_log :: "(nat \<times> nat option \<times> nat option) list"
  entry_calls :: "(nat \<times> nat option \<times> nat option) list"
  optimised :: bool
  on_stack :: nat
  launch :: "nat \<Rightarrow> nat option"

definition boot :: runtime where
  "boot = \<lparr>heap = (\<lambda>_. None), co_queue = [], current_co = None, brk = 1,
           spawn_log = [], entry_calls = [], optimised = False, on_stack = 0,
           launch = (\<lambda>_. None)\<rparr>"

subsection \<open>The ready queue\<close>

text \<open>\<open>co_queue_insert\<close>, lines 109-128: the new node is linked in front of the head
  node, which is the last place of the circle seen from the head.\<close>

definition co_queue_insert :: "nat \<Rightarrow> runtime \<Rightarrow> runtime" where
  "co_queue_insert new_co s =
     (if co_queue s = [] then s\<lparr>co_queue := [new_co]\<rparr>
      else s\<lparr>co_queue := co_queue s @ [new_co]\<rparr>)"

text \<open>\<open>co_queue_remove\<close>, lines 134-152: unlinks the head node and returns it; the
  head moves to the next node.\<close>

definition co_queue_remove :: "runtime \<Rightarrow> nat option \<times> runtime" where
  "co_queue_remove s =
     (case co_queue s of
        [] \<Rightarrow> (None, s)
      | victim # rest \<Rightarrow> (Some victim, s\<lparr>co_queue := rest\<rparr>))"

subsection \<open>Creation\<close>

text \<open>\<open>co_start\<close>, lines 161-177.\<close>

definition co_start :: "string \<Rightarrow> nat option \<Rightarrow> nat option \<Rightarrow> runtime \<Rightarrow> nat \<times> runtime" where
  "co_start nm f a s =
     (let new_co = brk s;
          r = \<lparr>name = nm, func = f, arg = a, status = CO_STATUS_NEW, waiter = None,
               jmp_ctx = None\<rparr>
      in (new_co,
          co_queue_insert new_co
            (s\<lparr>heap := (heap s)(new_co \<mapsto> r), brk := Suc new_co,
               spawn_log := spawn_log s @ [(new_co, f, a)]\<rparr>)))"

text \<open>\<open>co_initialize\<close>, lines 288-292, run on the state of a fresh process: the stack in
  use is that of the process.  \<open>co_initialize\<close> is the start of the unoptimised binary,
  \<open>co_initialize_opt\<close> of the optimised one.\<close>

definition co_initialize :: runtime where
  "co_initialize =
     (let (m, s) = co_start ''main'' None None boot
      in case heap s m of
           None \<Rightarrow> s
         | Some r \<Rightarrow> s\<lparr>current_co := Some m,
                       heap := (heap s)(m \<mapsto> r\<lparr>status := CO_STATUS_RUNNING\<rparr>),
                       on_stack := m\<rparr>)"

definition co_initialize_opt :: runtime where
  "co_initialize_opt = co_initialize\<lparr>optimised := True\<rparr>"

subsection \<open>Reclamation\<close>

text \<open>The search loop of \<open>co_wait\<close>, lines 195-204: walk the circle from the head until
  the node of \<open>coroutine\<close> is met (it becomes the head) or the walk is back at the
  head (the head stays).  The counter is the number of nodes still to visit.\<close>

fun seek :: "nat \<Rightarrow> nat \<Rightarrow> nat list \<Rightarrow> nat list option" where
  "seek t 0 q = None"
| "seek t (Suc n) [] = None"
| "seek t (Suc n) (h # rest) = (if h = t then Some (h # rest) else seek t n (rest @ [h]))"

text \<open>Lines 194-212 of \<open>co_wait\<close>: everything after the conditional yield.\<close>

definition reclaim :: "nat \<Rightarrow> runtime \<Rightarrow> halt + runtime" where
  "reclaim t s =
     (let s1 = (case seek t (length (co_queue s)) (co_queue s) of
                  None \<Rightarrow> s
                | Some q \<Rightarrow> s\<lparr>co_queue := q\<rparr>)
      in case co_queue s1 of
           [] \<Rightarrow> Inl Segfault
         | h # _ \<Rightarrow>
             if h \<noteq> t then Inl Assert_failed
             else if heap s1 t = None then Inl Undefined
             else (case co_queue_remove (s1\<lparr>heap := (heap s1)(t := None)\<rparr>) of
                     (None, _) \<Rightarrow> Inl Assert_failed
                   | (Some _, s2) \<Rightarrow> Inr s2))"

subsection \<open>The scheduler\<close>

definition eligible :: "co \<Rightarrow> bool" where
  "eligible r \<longleftrightarrow> status r = CO_STATUS_RUNNING \<or> status r = CO_STATUS_NEW"

text \<open>The \<open>do ... while\<close> loop of \<open>co_yield\<close>, lines 228-235: advance the head, test the
  record it refers to, stop when the head is back at the start node.  The counter is the
  number of nodes still to visit; the result is the queue with the chosen node as
  head, or \<open>None\<close> when the loop ended without a choice.\<close>

fun find_next :: "(nat \<Rightarrow> co option) \<Rightarrow> nat \<Rightarrow> nat list \<Rightarrow> halt + nat list option" where
  "find_next hp 0 q = Inr None"
| "find_next hp (Suc n) [] = Inl Segfault"
| "find_next hp (Suc n) (h # rest) =
     (case rest @ [h] of
        [] \<Rightarrow> Inl Segfault
      | c # others \<Rightarrow>
          (case hp c of
             None \<Rightarrow> Inl Segfault
           | Some r \<Rightarrow> if eligible r then Inr (Some (c # others))
                       else find_next hp n (c # others)))"

text \<open>What happens when an activation of \<open>co_yield\<close> returns to its caller.\<close>

definition yield_returns :: "call_site \<Rightarrow> runtime \<Rightarrow> halt + runtime" where
  "yield_returns site s =
     (case site of
        Site_user \<Rightarrow> Inr s
      | Site_wait t \<Rightarrow> reclaim t s
      | Site_exit \<Rightarrow> Inl Undefined)"

text \<open>\<open>longjmp\<close> to the context of \<open>n\<close>, line 247: the processor is back on the stack of
  \<open>n\<close>, at the activation of \<open>co_yield\<close> that saved the context.  Whatever lies below that
  activation is free stack from now on: the frames from which entry functions were
  called on this stack are given up to the calls \<open>n\<close> makes next.\<close>

definition resume_stack :: "nat \<Rightarrow> runtime \<Rightarrow> runtime" where
  "resume_stack n s =
     s\<lparr>on_stack := n, launch := (\<lambda>p. if launch s p = Some n then None else launch s p)\<rparr>"

text \<open>The \<open>asm\<close> statement of \<open>stack_switch_call\<close>, lines 66-82: the stack pointer is set
  to the top of the stack of \<open>n\<close> and the entry function is called.  The frame of the
  caller stays on the stack that was in use.\<close>

definition switch_stack :: "nat \<Rightarrow> runtime \<Rightarrow> runtime" where
  "switch_stack n s = s\<lparr>launch := (launch s)(n \<mapsto> on_stack s), on_stack := n\<rparr>"

text \<open>The store \<open>current_co->status = CO_STATUS_RUNNING\<close> of line 251, as the binary
  executes it.\<close>

definition store_251 :: "runtime \<Rightarrow> co \<Rightarrow> co" where
  "store_251 s r = (if optimised s then r else r\<lparr>status := CO_STATUS_RUNNING\<rparr>)"

text \<open>Lines 243-273: \<open>current_co\<close> has been set to the chosen record \<open>n\<close>.  A
  \<open>CO_STATUS_RUNNING\<close> record is resumed by \<open>longjmp\<close>: its own activation of \<open>co_yield\<close>
  passes the assertion of line 277 and returns.  For a \<open>CO_STATUS_NEW\<close> record line 251
  is executed and the entry function is called on the stack of the record; the state
  returned is the one in which the entry function starts to run.  The last branch (no
  \<open>if\<close> applies) lets the calling activation return.\<close>

definition transfer :: "call_site \<Rightarrow> nat \<Rightarrow> runtime \<Rightarrow> halt + runtime" where
  "transfer site n s =
     (case heap s n of
        None \<Rightarrow> Inl Segfault
      | Some r \<Rightarrow>
          if status r = CO_STATUS_RUNNING then
            (case jmp_ctx r of
               None \<Rightarrow> Inl Undefined
             | Some saved \<Rightarrow> yield_returns saved (resume_stack n s))
          else if status r = CO_STATUS_NEW then
            (case func r of
               None \<Rightarrow> Inl Segfault
             | Some f \<Rightarrow>
                 Inr (switch_stack n
                       (s\<lparr>heap := (heap s)(n \<mapsto> store_251 s r),
                          entry_calls := entry_calls s @ [(n, func r, arg r)]\<rparr>)))
          else yield_returns site s)"

text \<open>Lines 224-243: the scan and the choice.\<close>

definition schedule :: "call_site \<Rightarrow> runtime \<Rightarrow> halt + runtime" where
  "schedule site s =
     (case find_next (heap s) (length (co_queue s)) (co_queue s) of
        Inl e \<Rightarrow> Inl e
      | Inr None \<Rightarrow> (if co_queue s = [] then Inl Segfault else Inl Exit_0)
      | Inr (Some q) \<Rightarrow>
          (case q of
             [] \<Rightarrow> Inl Segfault
           | n # _ \<Rightarrow> transfer site n (s\<lparr>co_queue := q, current_co := Some n\<rparr>)))"

text \<open>\<open>co_yield\<close> called from \<open>site\<close>: line 220 saves the context of the current
  coroutine, then the scheduler runs.\<close>

definition yield_from :: "call_site \<Rightarrow> runtime \<Rightarrow> halt + runtime" where
  "yield_from site s =
     (case current_co s of
        None \<Rightarrow> Inl Segfault
      | Some c \<Rightarrow>
          (case heap s c of
             None \<Rightarrow> Inl Segfault
           | Some r \<Rightarrow> schedule site (s\<lparr>heap := (heap s)(c \<mapsto> r\<lparr>jmp_ctx := Some site\<rparr>)\<rparr>)))"

text \<open>\<open>co_yield\<close> called by the program.\<close>

definition co_yield :: "runtime \<Rightarrow> halt + runtime" where
  "co_yield s = yield_from Site_user s"

text \<open>The way from the \<open>ret\<close> of the entry function of the current coroutine to line 260.
  In the optimised build the \<open>call\<close> instruction of line 71 is part of \<open>co_yield\<close>:
  control continues behind it, on the stack of the coroutine.  In the unoptimised build
  the \<open>call\<close> is inside the function \<open>stack_switch_call\<close>, whose epilogue takes the stack
  pointer and the return address from its frame, through the frame pointer the entry
  function has restored.  That frame lies on the stack the call was made on; when the
  owner of that stack has run in the meantime the frame holds other data, and where
  control goes is not determined by the C text.\<close>

definition stack_switch_return :: "runtime \<Rightarrow> halt + runtime" where
  "stack_switch_return s =
     (if optimised s then Inr s
      else case current_co s of
             None \<Rightarrow> Inl Segfault
           | Some c \<Rightarrow>
               (case launch s c of
                  None \<Rightarrow> Inl Undefined
                | Some l \<Rightarrow> Inr (s\<lparr>on_stack := l, launch := (launch s)(c := None)\<rparr>)))"

text \<open>Lines 260-272, executed once control is back in the activation of \<open>co_yield\<close> that
  made the call.\<close>

definition entry_returned :: "runtime \<Rightarrow> halt + runtime" where
  "entry_returned s =
     (case current_co s of
        None \<Rightarrow> Inl Segfault
      | Some c \<Rightarrow>
          (case heap s c of
             None \<Rightarrow> Inl Segfault
           | Some r \<Rightarrow>
               let s1 = s\<lparr>heap := (heap s)(c \<mapsto> r\<lparr>status := CO_STATUS_DEAD\<rparr>)\<rparr>
               in (case waiter r of
                     None \<Rightarrow> yield_from Site_exit s1
                   | Some w \<Rightarrow>
                       (case heap s1 w of
                          None \<Rightarrow> Inl Segfault
                        | Some rw \<Rightarrow>
                            yield_from Site_exit
                              (s1\<lparr>heap := (heap s1)(w \<mapsto> rw\<lparr>status := CO_STATUS_RUNNING\<rparr>)\<rparr>)))))"

text \<open>The entry function of the current coroutine returns.\<close>

definition entry_exit :: "runtime \<Rightarrow> halt + runtime" where
  "entry_exit s =
     (case stack_switch_return s of
        Inl h \<Rightarrow> Inl h
      | Inr s0 \<Rightarrow> entry_returned s0)"

subsection \<open>Waiting\<close>

text \<open>\<open>co_wait\<close>, lines 183-213.\<close>

definition co_wait :: "nat \<Rightarrow> runtime \<Rightarrow> halt + runtime" where
  "co_wait t s =
     (case heap s t of
        None \<Rightarrow> Inl Segfault
      | Some rt \<Rightarrow>
          if status rt \<noteq> CO_STATUS_DEAD then
            (let s1 = s\<lparr>heap := (heap s)(t \<mapsto> rt\<lparr>waiter := current_co s\<rparr>)\<rparr>
             in case current_co s1 of
                  None \<Rightarrow> Inl Segfault
                | Some c \<Rightarrow>
                    (case heap s1 c of
                       None \<Rightarrow> Inl Segfault
                     | Some rc \<Rightarrow>
                         yield_from (Site_wait t)
                           (s1\<lparr>heap := (heap s1)(c \<mapsto> rc\<lparr>status := CO_STATUS_WAITING\<rparr>)\<rparr>)))
          else reclaim t s)"

subsection \<open>Teardown\<close>

text \<open>\<open>co_cleanup\<close>, lines 298-307, the destructor run when the process exits.\<close>

function co_cleanup :: "runtime \<Rightarrow> runtime" where
  "co_cleanup s =
     (if co_queue s \<noteq> [] then
        (case co_queue_remove s of
           (None, s1) \<Rightarrow> co_cleanup s1
         | (Some v, s1) \<Rightarrow> co_cleanup (s1\<lparr>heap := (heap s1)(v := None)\<rparr>))
      else s)"
  by pat_completeness auto
termination
  by (relation "measure (\<lambda>s. length (co_queue s))")
     (auto simp: co_queue_remove_def split: list.splits)

declare co_cleanup.simps [simp del]

subsection \<open>Programs as sequences of library calls\<close>

text \<open>The code that uses the library is not part of co.c.  Between two calls of the
  library exactly one flow of control executes, the one \<open>current_co\<close> refers to, and all
  it can do to the runtime is call \<open>co_start\<close>, \<open>co_yield\<close> or \<open>co_wait\<close>, or return
  from its entry function.  A flow executes an entry function when
  \<open>stack_switch_call\<close> has called one for its record.\<close>

definition in_entry :: "runtime \<Rightarrow> bool" where
  "in_entry s =
     (case current_co s of
        None \<Rightarrow> False
      | Some c \<Rightarrow> c \<in> fst ` set (entry_calls s))"

datatype event = Ev_start string "nat option" "nat option" | Ev_yield | Ev_wait nat | Ev_return

text \<open>One call.  A return of the primordial flow is the end of \<open>main\<close>.\<close>

fun fire :: "event \<Rightarrow> runtime \<Rightarrow> halt + runtime" where
  "fire (Ev_start nm f a) s = Inr (snd (co_start nm f a s))"
| "fire Ev_yield s = co_yield s"
| "fire (Ev_wait t) s = co_wait t s"
| "fire Ev_return s = (if in_entry s then entry_exit s else Inl Exit_0)"

fun run :: "event list \<Rightarrow> runtime \<Rightarrow> halt + runtime" where
  "run [] s = Inr s"
| "run (e # es) s = (case fire e s of Inl h \<Rightarrow> Inl h | Inr s' \<Rightarrow> run es s')"

text \<open>The coroutine that executes after each call of a sequence.\<close>

fun trace :: "event list \<Rightarrow> runtime \<Rightarrow> nat option list" where
  "trace [] s = []"
| "trace (e # es) s =
     (case fire e s of Inl h \<Rightarrow> [] | Inr s' \<Rightarrow> current_co s' # trace es s')"

text \<open>The states the unoptimised binary can be in between two calls.\<close>

definition reachable :: "runtime \<Rightarrow> bool" where
  "reachable s \<longleftrightarrow> (\<exists>es. run es co_initialize = Inr s)"

text \<open>The record of the primordial flow.\<close>

definition main_co :: nat where
  "main_co = fst (co_start ''main'' None None boot)"

subsection \<open>Observations\<close>

definition status_of :: "runtime \<Rightarrow> nat \<Rightarrow> CoStatus option" where
  "status_of s p = map_option status (heap s p)"

text \<open>A record has finished when its entry function has returned; it may have been
  reclaimed since.\<close>

definition finished :: "runtime \<Rightarrow> nat \<Rightarrow> bool" where
  "finished s p =
     (case heap s p of
        None \<Rightarrow> p < brk s
      | Some r \<Rightarrow> status r = CO_STATUS_DEAD)"

text \<open>The order in which a scan that starts at queue \<open>q\<close> visits the records: from the
  node after the head, around the circle, the head last.\<close>

definition scan_order :: "nat list \<Rightarrow> nat list" where
  "scan_order q = (case q of [] \<Rightarrow> [] | h # rest \<Rightarrow> rest @ [h])"

definition can_run :: "(nat \<Rightarrow> co option) \<Rightarrow> nat \<Rightarrow> bool" where
  "can_run hp p = (case hp p of None \<Rightarrow> False | Some r \<Rightarrow> eligible r)"

text \<open>The circle turned so that \<open>t\<close> is the head.\<close>

definition turn_to :: "nat \<Rightarrow> nat list \<Rightarrow> nat list" where
  "turn_to t q = dropWhile (\<lambda>x. x \<noteq> t) q @ takeWhile (\<lambda>x. x \<noteq> t) q"

subsection \<open>Invariants of the runtime\<close>

definition struct_ok :: "runtime \<Rightarrow> bool" where
  "struct_ok s \<longleftrightarrow>
     distinct (co_queue s) \<and>
     (\<forall>p. (heap s p \<noteq> None) = (p \<in> set (co_queue s))) \<and>
     (\<forall>p. heap s p \<noteq> None \<longrightarrow> p < brk s) \<and>
     (\<exists>c r. current_co s = Some c \<and> heap s c = Some r)"

definition waiters_ok :: "runtime \<Rightarrow> bool" where
  "waiters_ok s \<longleftrightarrow>
     (\<forall>x rx w. heap s x = Some rx \<and> waiter rx = Some w \<and> status rx \<noteq> CO_STATUS_DEAD \<longrightarrow>
        (\<exists>rw. heap s w = Some rw \<and> status rw = CO_STATUS_WAITING \<and>
              jmp_ctx rw = Some (Site_wait x)))"

text \<open>A saved context that can be resumed: saved by a call of the program, or saved
  inside \<open>co_wait\<close> for a target that has finished.\<close>

definition resumable :: "runtime \<Rightarrow> co \<Rightarrow> bool" where
  "resumable s r =
     (case jmp_ctx r of
        None \<Rightarrow> False
      | Some Site_user \<Rightarrow> True
      | Some (Site_wait t) \<Rightarrow> finished s t
      | Some Site_exit \<Rightarrow> False)"

definition resume_ok_all :: "runtime \<Rightarrow> bool" where
  "resume_ok_all s \<longleftrightarrow>
     (\<forall>w rw. heap s w = Some rw \<and> status rw = CO_STATUS_RUNNING \<longrightarrow> resumable s rw)"

definition resume_ok :: "runtime \<Rightarrow> bool" where
  "resume_ok s \<longleftrightarrow>
     (\<forall>w rw. heap s w = Some rw \<and> status rw = CO_STATUS_RUNNING \<and> current_co s \<noteq> Some w \<longrightarrow>
        resumable s rw)"

definition running_ok :: "runtime \<Rightarrow> bool" where
  "running_ok s \<longleftrightarrow>
     (\<exists>c r. current_co s = Some c \<and> heap s c = Some r \<and> status r = CO_STATUS_RUNNING)"

definition logs_ok :: "runtime \<Rightarrow> bool" where
  "logs_ok s \<longleftrightarrow>
     (\<forall>e \<in> set (spawn_log s). fst e < brk s) \<and>
     distinct (map fst (spawn_log s)) \<and>
     set (entry_calls s) \<subseteq> set (spawn_log s) \<and>
     distinct (map fst (entry_calls s)) \<and>
     (\<forall>e \<in> set (entry_calls s). fst (snd e) \<noteq> None) \<and>
     (\<forall>p r. heap s p = Some r \<longrightarrow> (p, func r, arg r) \<in> set (spawn_log s)) \<and>
     (\<forall>p r. heap s p = Some r \<and> status r = CO_STATUS_NEW \<longrightarrow> p \<notin> fst ` set (entry_calls s)) \<and>
     (\<forall>p r. heap s p = Some r \<and> status r = CO_STATUS_DEAD \<longrightarrow> p \<in> fst ` set (entry_calls s)) \<and>
     (\<forall>e \<in> set (spawn_log s). heap s (fst e) = None \<longrightarrow> fst e \<in> fst ` set (entry_calls s)) \<and>
     main_co \<notin> fst ` set (entry_calls s) \<and>
     (\<exists>r. heap s main_co = Some r \<and> status r \<noteq> CO_STATUS_NEW \<and> func r = None \<and> arg r = None)"

text \<open>One record is changed in place.\<close>

definition touch :: "nat \<Rightarrow> (co \<Rightarrow> co) \<Rightarrow> runtime \<Rightarrow> runtime" where
  "touch p g s = s\<lparr>heap := (\<lambda>x. if x = p then map_option g (heap s x) else heap s x)\<rparr>"

text \<open>Lines 267-269 of \<open>co_yield\<close> on a waiter that exists.\<close>

fun wake :: "nat option \<Rightarrow> runtime \<Rightarrow> runtime" where
  "wake None s = s"
| "wake (Some w) s = touch w (\<lambda>r. r\<lparr>status := CO_STATUS_RUNNING\<rparr>) s"

text \<open>The invariant of the unoptimised binary between two calls of the library, and
  the one inside \<open>co_yield\<close> after the context has been saved.\<close>

definition inv :: "runtime \<Rightarrow> bool" where
  "inv s \<longleftrightarrow> struct_ok s \<and> waiters_ok s \<and> resume_ok s \<and> running_ok s \<and> logs_ok s \<and>
           \<not> optimised s"

definition mid :: "runtime \<Rightarrow> bool" where
  "mid s \<longleftrightarrow> struct_ok s \<and> waiters_ok s \<and> resume_ok_all s \<and> logs_ok s \<and> \<not> optimised s"

subsection \<open>Example states\<close>

text \<open>The state in which the primordial flow has started A and B and yielded, A has
  waited for the primordial flow and B has yielded (\<open>skip_demo_reachable\<close> below).\<close>

definition skip_demo :: runtime where
  "skip_demo =
     \<lparr>heap = (\<lambda>_. None)
        (1 \<mapsto> \<lparr>name = ''main'', func = None, arg = None, status = CO_STATUS_RUNNING,
               waiter = Some 2, jmp_ctx = Some Site_user\<rparr>,
         2 \<mapsto> \<lparr>name = ''A'', func = Some 10, arg = Some 100, status = CO_STATUS_WAITING,
               waiter = None, jmp_ctx = Some (Site_wait 1)\<rparr>,
         3 \<mapsto> \<lparr>name = ''B'', func = Some 11, arg = Some 101, status = CO_STATUS_RUNNING,
               waiter = None, jmp_ctx = Some Site_user\<rparr>),
      co_queue = [1, 2, 3], current_co = Some 1, brk = 4,
      spawn_log = [(1, None, None), (2, Some 10, Some 100), (3, Some 11, Some 101)],
      entry_calls = [(2, Some 10, Some 100), (3, Some 11, Some 101)],
      optimised = False, on_stack = 1, launch = (\<lambda>_. None)(3 \<mapsto> 2)\<rparr>"

text \<open>Three programs.  In each the primordial flow starts A, B and C, whose records get
  the addresses 2, 3 and 4.  In \<open>demo_round\<close> every flow yields once, the primordial
  flow yields a second time, then A, B and C return.  In \<open>demo_wait\<close> A returns at once,
  B and C yield and the primordial flow waits for A.  In \<open>demo_two\<close> A and B both wait
  for C, then C returns, B is resumed and returns.\<close>

definition spawn3 :: "event list" where
  "spawn3 = [Ev_start ''A'' (Some 10) (Some 100), Ev_start ''B'' (Some 11) (Some 101),
             Ev_start ''C'' (Some 12) (Some 102)]"

definition demo_round :: "event list" where
  "demo_round = spawn3 @ [Ev_yield, Ev_yield, Ev_yield, Ev_yield, Ev_yield,
                          Ev_return, Ev_return, Ev_return]"

definition demo_wait :: "event list" where
  "demo_wait = spawn3 @ [Ev_yield, Ev_return, Ev_yield, Ev_yield, Ev_wait 2]"

definition demo_two :: "event list" where
  "demo_two = spawn3 @ [Ev_yield, Ev_wait 4, Ev_wait 4, Ev_return, Ev_yield, Ev_return]"

text \<open>Three programs with A and B only, at the addresses 2 and 3.  In \<open>demo_stale\<close> A
  yields, B waits for A, the primordial flow yields and A returns.  In \<open>demo_late\<close> B is
  started by A.  In \<open>demo_live\<close> the primordial flow waits for A, which has not run yet; A
  returns at once and B yields.\<close>

definition demo_stale :: "event list" where
  "demo_stale = [Ev_start ''A'' (Some 10) (Some 100), Ev_start ''B'' (Some 11) (Some 101),
                 Ev_yield, Ev_yield, Ev_wait 2, Ev_yield, Ev_return]"

definition demo_late :: "event list" where
  "demo_late = [Ev_start ''A'' (Some 10) (Some 100), Ev_yield,
                Ev_start ''B'' (Some 11) (Some 101)]"


definition returns :: "halt + runtime \<Rightarrow> bool" where
  "returns x = (case x of Inl _ \<Rightarrow> False | Inr _ \<Rightarrow> True)"

definition halted :: "halt + runtime \<Rightarrow> halt option" where
  "halted x = (case x of Inl h \<Rightarrow> Some h | Inr _ \<Rightarrow> None)"

definition outcome :: "halt + runtime \<Rightarrow> runtime" where
  "outcome x = (case x of Inl _ \<Rightarrow> boot | Inr s \<Rightarrow> s)"

section \<open>Properties\<close>

subsection \<open>The primordial flow alone\<close>

lemma co_initialize_eq:
  "co_initialize = \<lparr>heap = (\<lambda>_. None)(1 \<mapsto> \<lparr>name = ''main'', func = None, arg = None,
        status = CO_STATUS_RUNNING, waiter = None, jmp_ctx = None\<rparr>),
      co_queue = [1], current_co = Some 1, brk = 2, spawn_log = [(1, None, None)],
      entry_calls = [], optimised = False, on_stack = 1, launch = (\<lambda>_. None)\<rparr>"
  by (simp add: co_initialize_def co_start_def co_queue_insert_def boot_def)

subsection \<open>The search and the scan over the circle\<close>

lemma seek_found:
  "t \<notin> set xs \<Longrightarrow> length xs < n \<Longrightarrow> seek t n (xs @ t # ys) = Some (t # ys @ xs)"
proof (induction xs arbitrary: ys n)
  case Nil
  then show ?case by (cases n) simp_all
next
  case (Cons x xs)
  then obtain m where n: "n = Suc m" by (cases n) auto
  from Cons.prems have "seek t m (xs @ t # (ys @ [x])) = Some (t # (ys @ [x]) @ xs)"
    by (intro Cons.IH) (auto simp: n)
  with Cons.prems show ?case by (simp add: n)
qed

lemma seek_absent: "t \<notin> set q \<Longrightarrow> seek t n q = None"
proof (induction n arbitrary: q)
  case 0
  then show ?case by simp
next
  case (Suc n)
  then show ?case by (cases q) auto
qed

lemma turn_to_split:
  "t \<in> set q \<Longrightarrow> \<exists>xs ys. q = xs @ t # ys \<and> t \<notin> set xs \<and> turn_to t q = t # ys @ xs"
proof -
  assume "t \<in> set q"
  then obtain xs ys where q: "q = xs @ t # ys" and nin: "t \<notin> set xs"
    by (meson split_list_first)
  have "takeWhile (\<lambda>x. x \<noteq> t) q = xs" "dropWhile (\<lambda>x. x \<noteq> t) q = t # ys"
    using nin by (auto simp: q takeWhile_append dropWhile_append)
  then show ?thesis using q nin by (auto simp: turn_to_def)
qed

lemma seek_turn:
  "seek t (length q) q = (if t \<in> set q then Some (turn_to t q) else None)"
proof (cases "t \<in> set q")
  case True
  then obtain xs ys where "q = xs @ t # ys" "t \<notin> set xs" "turn_to t q = t # ys @ xs"
    using turn_to_split by blast
  then show ?thesis using True seek_found [of t xs "length q" ys] by simp
next
  case False
  then show ?thesis by (simp add: seek_absent)
qed

lemma find_next_found:
  "\<forall>x \<in> set a. hp x \<noteq> None \<and> \<not> can_run hp x \<Longrightarrow> can_run hp e \<Longrightarrow> length a < n \<Longrightarrow>
   find_next hp n (z # a @ e # b) = Inr (Some (e # b @ z # a))"
proof (induction a arbitrary: z b n)
  case Nil
  then show ?case by (cases n) (auto simp: can_run_def split: option.splits)
next
  case (Cons x a)
  then obtain m where n: "n = Suc m" by (cases n) auto
  from Cons.prems have "find_next hp m (x # a @ e # (b @ [z])) = Inr (Some (e # (b @ [z]) @ x # a))"
    by (intro Cons.IH) (auto simp: n)
  with Cons.prems show ?case by (auto simp: n can_run_def split: option.splits)
qed

lemma find_next_self:
  assumes "\<forall>x \<in> set a. hp x \<noteq> None \<and> \<not> can_run hp x" "can_run hp z" "length a < n"
  shows "find_next hp n (z # a) = Inr (Some (z # a))"
proof (cases a)
  case Nil
  with assms show ?thesis by (cases n) (auto simp: can_run_def split: option.splits)
next
  case (Cons x a')
  from assms obtain m where n: "n = Suc m" by (cases n) auto
  from assms Cons have "find_next hp m (x # a' @ z # []) = Inr (Some (z # [] @ x # a'))"
    by (intro find_next_found) (auto simp: n)
  with assms Cons show ?thesis by (auto simp: n can_run_def split: option.splits)
qed

lemma find_next_none:
  "q \<noteq> [] \<Longrightarrow> \<forall>x \<in> set q. hp x \<noteq> None \<and> \<not> can_run hp x \<Longrightarrow> find_next hp n q = Inr None"
proof (induction n arbitrary: q)
  case 0
  then show ?case by simp
next
  case (Suc n)
  then obtain h rest where q: "q = h # rest" by (cases q) auto
  obtain c others where r: "rest @ [h] = c # others" by (cases "rest @ [h]") auto
  then have "set (c # others) = set q" using q by (metis set_rotate1 rotate1.simps(2))
  with Suc.prems have "find_next hp n (c # others) = Inr None" "hp c \<noteq> None" "\<not> can_run hp c"
    by (auto intro!: Suc.IH)
  then show ?case using q r by (auto simp: can_run_def split: option.splits)
qed

lemma find_first_split:
  "find P xs = Some n \<Longrightarrow> \<exists>a b. xs = a @ n # b \<and> (\<forall>x \<in> set a. \<not> P x) \<and> P n"
  by (induction xs) (auto split: if_splits intro: exI [of _ "[]"] | metis append_Cons set_ConsD)+

lemma find_next_scan:
  assumes "q \<noteq> []" "\<forall>p \<in> set q. hp p \<noteq> None"
  shows "find_next hp (length q) q =
         Inr (map_option (\<lambda>n. turn_to n (scan_order q)) (find (can_run hp) (scan_order q)))"
proof -
  from assms obtain z rest where q: "q = z # rest" by (cases q) auto
  let ?xs = "rest @ [z]"
  have xs: "scan_order q = ?xs" by (simp add: q scan_order_def)
  show ?thesis
  proof (cases "find (can_run hp) ?xs")
    case None
    then have "\<forall>x \<in> set q. \<not> can_run hp x" by (auto simp: find_None_iff q)
    with assms have "find_next hp (length q) q = Inr None"
      by (intro find_next_none) auto
    with None xs show ?thesis by simp
  next
    case (Some n)
    from find_first_split [OF Some]
    obtain a b where ab: "?xs = a @ n # b" "\<forall>x \<in> set a. \<not> can_run hp x" "can_run hp n"
      by auto
    then have nin: "n \<notin> set a" by auto
    have turn: "turn_to n ?xs = n # b @ a"
    proof -
      have "\<forall>x \<in> set a. x \<noteq> n" using nin by auto
      then have "takeWhile (\<lambda>x. x \<noteq> n) (a @ n # b) = a" "dropWhile (\<lambda>x. x \<noteq> n) (a @ n # b) = n # b"
        by (simp_all add: takeWhile_append dropWhile_append)
      then show ?thesis by (simp add: turn_to_def ab(1))
    qed
    have ina: "\<forall>x \<in> set a. hp x \<noteq> None \<and> \<not> can_run hp x"
    proof
      fix x assume "x \<in> set a"
      then have "x \<in> set ?xs" by (simp add: ab(1))
      then have "x \<in> set q" by (auto simp: q)
      with assms(2) ab(2) \<open>x \<in> set a\<close> show "hp x \<noteq> None \<and> \<not> can_run hp x" by blast
    qed
    have "find_next hp (length q) q = Inr (Some (n # b @ a))"
    proof (cases b rule: rev_cases)
      case Nil
      with ab(1) have "rest @ [z] = a @ [n]" by simp
      then have "n = z" "a = rest" unfolding append1_eq_conv by simp_all
      with ina ab(3) Nil show ?thesis
        using find_next_self [of rest hp z "length q"] by (simp add: q)
    next
      case (snoc b' y)
      with ab(1) have "rest @ [z] = (a @ n # b') @ [y]" by simp
      then have "y = z" "rest = a @ n # b'" unfolding append1_eq_conv by simp_all
      with ina ab(3) snoc show ?thesis
        using find_next_found [of a hp n "length q" z b'] by (simp add: q)
    qed
    with Some xs turn show ?thesis by simp
  qed
qed

lemma turn_to_head: "n \<in> set xs \<Longrightarrow> \<exists>rest. turn_to n xs = n # rest"
  using turn_to_split [of n xs] by auto

lemma find_in_set: "find P xs = Some n \<Longrightarrow> n \<in> set xs \<and> P n"
  by (induction xs) (auto split: if_splits)

lemma can_run_status:
  "can_run (heap s) p \<longleftrightarrow>
     status_of s p = Some CO_STATUS_RUNNING \<or> status_of s p = Some CO_STATUS_NEW"
  by (cases "heap s p") (auto simp: can_run_def status_of_def eligible_def)

lemma can_run_save_ctx:
  "hp c = Some r \<Longrightarrow> can_run (hp(c \<mapsto> r\<lparr>jmp_ctx := x\<rparr>)) = can_run hp"
  by (rule ext) (simp add: can_run_def eligible_def)

lemma schedule_scan:
  assumes "co_queue s \<noteq> []" "\<forall>p \<in> set (co_queue s). heap s p \<noteq> None"
  shows "schedule site s =
     (case find (can_run (heap s)) (scan_order (co_queue s)) of
        None \<Rightarrow> Inl Exit_0
      | Some n \<Rightarrow> transfer site n
          (s\<lparr>co_queue := turn_to n (scan_order (co_queue s)), current_co := Some n\<rparr>))"
proof (cases "find (can_run (heap s)) (scan_order (co_queue s))")
  case None
  with assms show ?thesis by (simp add: schedule_def find_next_scan)
next
  case (Some n)
  then have "n \<in> set (scan_order (co_queue s))" using find_in_set by fastforce
  then obtain rest where "turn_to n (scan_order (co_queue s)) = n # rest"
    using turn_to_head by blast
  with assms Some show ?thesis by (simp add: schedule_def find_next_scan)
qed

text \<open>C2, as the code has it: a call of \<open>co_yield\<close> (from any place) visits the records
  in the order of the links of the circle, from the node after the head of the queue and
  with the head last, every node once; it transfers to the first record whose status is
  \<open>CO_STATUS_RUNNING\<close> or \<open>CO_STATUS_NEW\<close>, whose node becomes the head, and calls
  \<open>exit(0)\<close> when there is none.\<close>

theorem yield_scans_the_circle_once:
  assumes "current_co s = Some c" "heap s c = Some r"
    and "co_queue s \<noteq> []" "\<forall>p \<in> set (co_queue s). heap s p \<noteq> None"
  shows "yield_from site s =
     (case find (can_run (heap s)) (scan_order (co_queue s)) of
        None \<Rightarrow> Inl Exit_0
      | Some n \<Rightarrow> transfer site n
          (s\<lparr>heap := (heap s)(c \<mapsto> r\<lparr>jmp_ctx := Some site\<rparr>),
             co_queue := turn_to n (scan_order (co_queue s)), current_co := Some n\<rparr>)) \<and>
     (\<forall>p. can_run (heap s) p \<longleftrightarrow>
           status_of s p = Some CO_STATUS_RUNNING \<or> status_of s p = Some CO_STATUS_NEW)"
proof -
  let ?s1 = "s\<lparr>heap := (heap s)(c \<mapsto> r\<lparr>jmp_ctx := Some site\<rparr>)\<rparr>"
  have "yield_from site s = schedule site ?s1"
    using assms(1,2) by (simp add: yield_from_def)
  also have "\<dots> = (case find (can_run (heap ?s1)) (scan_order (co_queue ?s1)) of
        None \<Rightarrow> Inl Exit_0
      | Some n \<Rightarrow> transfer site n
          (?s1\<lparr>co_queue := turn_to n (scan_order (co_queue ?s1)), current_co := Some n\<rparr>))"
    using assms(3,4) by (intro schedule_scan) auto
  finally have "yield_from site s =
     (case find (can_run (heap s)) (scan_order (co_queue s)) of
        None \<Rightarrow> Inl Exit_0
      | Some n \<Rightarrow> transfer site n
          (s\<lparr>heap := (heap s)(c \<mapsto> r\<lparr>jmp_ctx := Some site\<rparr>),
             co_queue := turn_to n (scan_order (co_queue s)), current_co := Some n\<rparr>))"
    using assms(2) by (simp add: can_run_save_ctx split: option.split)
  then show ?thesis by (simp add: can_run_status)
qed

theorem yield_scans_the_circle_once_witness:
  "yield_from Site_user skip_demo =
     transfer Site_user 3 (skip_demo\<lparr>heap := (heap skip_demo)(1 \<mapsto> \<lparr>name = ''main'',
         func = None, arg = None, status = CO_STATUS_RUNNING, waiter = Some 2,
         jmp_ctx = Some Site_user\<rparr>),
       co_queue := [3, 1, 2], current_co := Some 3\<rparr>)"
  using yield_scans_the_circle_once [of skip_demo 1 "\<lparr>name = ''main'', func = None,
         arg = None, status = CO_STATUS_RUNNING, waiter = Some 2, jmp_ctx = Some Site_user\<rparr>"
         Site_user]
  by (simp add: skip_demo_def scan_order_def can_run_def eligible_def turn_to_def)

text \<open>C2, as the specification has it, fails: the scan starts at the head of the queue,
  not at the node of the caller, and follows the links, not the order of creation.  In
  \<open>demo_late\<close> A runs and has started B: the records were created in the order
  primordial, A, B, and B is \<open>CO_STATUS_NEW\<close>, but the yield of A transfers to the
  primordial flow.  After \<open>demo_wait\<close> the primordial flow runs and its node is followed
  by the node of B, which is \<open>CO_STATUS_RUNNING\<close>; the head is the node of B, and the yield
  of the primordial flow transfers to C.\<close>

theorem yield_ignores_caller_and_creation_order:
  "current_co (outcome (run demo_late co_initialize)) = Some 2 \<and>
   map fst (spawn_log (outcome (run demo_late co_initialize))) = [1, 2, 3] \<and>
   co_queue (outcome (run demo_late co_initialize)) = [2, 1, 3] \<and>
   status_of (outcome (run demo_late co_initialize)) 3 = Some CO_STATUS_NEW \<and>
   trace [Ev_yield] (outcome (run demo_late co_initialize)) = [Some 1] \<and>
   current_co (outcome (run demo_wait co_initialize)) = Some 1 \<and>
   co_queue (outcome (run demo_wait co_initialize)) = [3, 4, 1] \<and>
   status_of (outcome (run demo_wait co_initialize)) 3 = Some CO_STATUS_RUNNING \<and>
   trace [Ev_yield] (outcome (run demo_wait co_initialize)) = [Some 4]"
  by code_simp

text \<open>C8, as the code has it: with the primordial record alone in the queue the scan
  comes back to that record, which is \<open>CO_STATUS_RUNNING\<close>; it is chosen and resumed
  at the context saved a moment ago, so \<open>co_yield\<close> returns to the primordial flow.
  Only the saved context has changed, and a second call changes nothing.\<close>

theorem yield_alone_reselects:
  "co_yield co_initialize =
     Inr (co_initialize\<lparr>heap := (heap co_initialize)(1 \<mapsto>
        \<lparr>name = ''main'', func = None, arg = None, status = CO_STATUS_RUNNING,
         waiter = None, jmp_ctx = Some Site_user\<rparr>)\<rparr>) \<and>
   run [Ev_yield, Ev_yield] co_initialize = run [Ev_yield] co_initialize"
  by (simp add: co_initialize_eq co_yield_def yield_from_def schedule_def transfer_def
      yield_returns_def eligible_def resume_stack_def)

text \<open>C8, as the specification has it, fails: the call does not end the process.\<close>

theorem yield_alone_does_not_exit: "co_yield co_initialize \<noteq> Inl Exit_0"
  by (simp add: co_initialize_eq co_yield_def yield_from_def schedule_def transfer_def
      yield_returns_def eligible_def resume_stack_def)

subsection \<open>The calls as changes of single records\<close>

lemma touch_simps [simp]:
  "heap (touch p g s) x = (if x = p then map_option g (heap s x) else heap s x)"
  "co_queue (touch p g s) = co_queue s"
  "current_co (touch p g s) = current_co s"
  "brk (touch p g s) = brk s"
  "spawn_log (touch p g s) = spawn_log s"
  "entry_calls (touch p g s) = entry_calls s"
  "optimised (touch p g s) = optimised s"
  "on_stack (touch p g s) = on_stack s"
  "launch (touch p g s) = launch s"
  by (simp_all add: touch_def)

lemma resume_stack_simps [simp]:
  "heap (resume_stack n s) = heap s"
  "co_queue (resume_stack n s) = co_queue s"
  "current_co (resume_stack n s) = current_co s"
  "brk (resume_stack n s) = brk s"
  "spawn_log (resume_stack n s) = spawn_log s"
  "entry_calls (resume_stack n s) = entry_calls s"
  "optimised (resume_stack n s) = optimised s"
  by (simp_all add: resume_stack_def)

lemma switch_stack_simps [simp]:
  "heap (switch_stack n s) = heap s"
  "co_queue (switch_stack n s) = co_queue s"
  "current_co (switch_stack n s) = current_co s"
  "brk (switch_stack n s) = brk s"
  "spawn_log (switch_stack n s) = spawn_log s"
  "entry_calls (switch_stack n s) = entry_calls s"
  "optimised (switch_stack n s) = optimised s"
  by (simp_all add: switch_stack_def)

lemma touch_eq: "heap s p = Some r \<Longrightarrow> s\<lparr>heap := (heap s)(p \<mapsto> g r)\<rparr> = touch p g s"
  by (auto simp: touch_def fun_eq_iff)

lemma yield_from_touch:
  "current_co s = Some c \<Longrightarrow> heap s c = Some r \<Longrightarrow>
   yield_from site s = schedule site (touch c (\<lambda>r. r\<lparr>jmp_ctx := Some site\<rparr>) s)"
  by (simp add: yield_from_def touch_eq [symmetric])

lemma co_wait_live:
  assumes "heap s t = Some rt" "status rt \<noteq> CO_STATUS_DEAD"
    and "current_co s = Some c" "heap s c = Some rc"
  shows "co_wait t s =
     schedule (Site_wait t)
       (touch c (\<lambda>r. r\<lparr>jmp_ctx := Some (Site_wait t)\<rparr>)
         (touch c (\<lambda>r. r\<lparr>status := CO_STATUS_WAITING\<rparr>)
           (touch t (\<lambda>r. r\<lparr>waiter := Some c\<rparr>) s)))"
proof -
  let ?s1 = "touch t (\<lambda>r. r\<lparr>waiter := Some c\<rparr>) s"
  let ?s2 = "touch c (\<lambda>r. r\<lparr>status := CO_STATUS_WAITING\<rparr>) ?s1"
  have "heap ?s1 c \<noteq> None" using assms by simp
  then obtain rc1 where rc1: "heap ?s1 c = Some rc1" by blast
  then have "heap ?s2 c \<noteq> None" by simp
  then obtain rc2 where rc2: "heap ?s2 c = Some rc2" by blast
  have "co_wait t s = yield_from (Site_wait t) ?s2"
    using assms rc1
    by (simp add: co_wait_def Let_def touch_eq [of s t rt "\<lambda>r. r\<lparr>waiter := Some c\<rparr>"]
        touch_eq [of ?s1 c rc1 "\<lambda>r. r\<lparr>status := CO_STATUS_WAITING\<rparr>"])
  also have "\<dots> = schedule (Site_wait t) (touch c (\<lambda>r. r\<lparr>jmp_ctx := Some (Site_wait t)\<rparr>) ?s2)"
    using assms(3) rc2 by (intro yield_from_touch) auto
  finally show ?thesis .
qed

lemma entry_returned_touch:
  assumes "current_co s = Some c" "heap s c = Some r"
    and "\<forall>w. waiter r = Some w \<longrightarrow> heap s w \<noteq> None"
  shows "entry_returned s =
     schedule Site_exit
       (touch c (\<lambda>r. r\<lparr>jmp_ctx := Some Site_exit\<rparr>)
         (wake (waiter r) (touch c (\<lambda>r. r\<lparr>status := CO_STATUS_DEAD\<rparr>) s)))"
proof -
  let ?s1 = "touch c (\<lambda>r. r\<lparr>status := CO_STATUS_DEAD\<rparr>) s"
  have e1: "s\<lparr>heap := (heap s)(c \<mapsto> r\<lparr>status := CO_STATUS_DEAD\<rparr>)\<rparr> = ?s1"
    using assms(2) by (rule touch_eq)
  show ?thesis
  proof (cases "waiter r")
    case None
    have "heap ?s1 c \<noteq> None" using assms(2) by simp
    then obtain r1 where "heap ?s1 c = Some r1" by blast
    then have "yield_from Site_exit ?s1 =
        schedule Site_exit (touch c (\<lambda>r. r\<lparr>jmp_ctx := Some Site_exit\<rparr>) ?s1)"
      using assms(1) by (intro yield_from_touch) auto
    then show ?thesis using assms(1,2) None
      by (simp add: entry_returned_def Let_def e1)
  next
    case (Some w)
    with assms(3) have "heap ?s1 w \<noteq> None" by auto
    then obtain rw where rw: "heap ?s1 w = Some rw" by blast
    let ?s2 = "touch w (\<lambda>r. r\<lparr>status := CO_STATUS_RUNNING\<rparr>) ?s1"
    have e2: "?s1\<lparr>heap := (heap ?s1)(w \<mapsto> rw\<lparr>status := CO_STATUS_RUNNING\<rparr>)\<rparr> = ?s2"
      using rw by (rule touch_eq)
    have "heap ?s2 c \<noteq> None" using assms(2) by auto
    then obtain r2 where "heap ?s2 c = Some r2" by blast
    then have "yield_from Site_exit ?s2 =
        schedule Site_exit (touch c (\<lambda>r. r\<lparr>jmp_ctx := Some Site_exit\<rparr>) ?s2)"
      using assms(1) by (intro yield_from_touch) auto
    then show ?thesis using assms(1,2) Some rw e2
      by (simp add: entry_returned_def Let_def e1)
  qed
qed

subsection \<open>What the scheduler and the reclamation return\<close>

lemma turn_to_set: "set (turn_to t q) = set q"
  unfolding turn_to_def by (metis set_append sup_commute takeWhile_dropWhile_id)

lemma turn_to_distinct: "distinct (turn_to t q) = distinct q"
  unfolding turn_to_def by (metis distinct_append takeWhile_dropWhile_id disjoint_iff inf_commute)

lemma reclaim_present:
  assumes "t \<in> set (co_queue s)" "heap s t \<noteq> None"
  shows "reclaim t s =
     Inr (s\<lparr>heap := (heap s)(t := None), co_queue := tl (turn_to t (co_queue s))\<rparr>)"
proof -
  from assms(1) obtain rest where "turn_to t (co_queue s) = t # rest"
    using turn_to_head by blast
  with assms show ?thesis
    by (simp add: reclaim_def seek_turn co_queue_remove_def Let_def)
qed

lemma reclaim_absent:
  assumes "t \<notin> set (co_queue s)"
  shows "reclaim t s = Inl Segfault \<or> reclaim t s = Inl Assert_failed"
proof -
  have sk: "seek t (length (co_queue s)) (co_queue s) = None"
    using assms by (simp add: seek_turn)
  show ?thesis
    unfolding reclaim_def sk using assms by (cases "co_queue s") (auto simp: Let_def)
qed

lemma reclaim_Inr:
  assumes "reclaim t s = Inr s'"
  shows "t \<in> set (co_queue s) \<and> heap s t \<noteq> None \<and>
         s' = s\<lparr>heap := (heap s)(t := None), co_queue := tl (turn_to t (co_queue s))\<rparr>"
proof -
  have in_q: "t \<in> set (co_queue s)" using assms reclaim_absent [of t s] by auto
  then obtain rest where "turn_to t (co_queue s) = t # rest"
    using turn_to_head by blast
  with assms in_q have "heap s t \<noteq> None"
    by (auto simp: reclaim_def seek_turn Let_def split: if_splits)
  with in_q assms show ?thesis by (simp add: reclaim_present)
qed

lemma find_next_Some:
  assumes "find_next hp n q = Inr (Some q')"
  shows "\<exists>c rest r. q' = c # rest \<and> hp c = Some r \<and> eligible r \<and> set q' = set q \<and>
           distinct q' = distinct q"
  using assms
proof (induction hp n q rule: find_next.induct)
  case (3 hp n h rest)
  obtain c others where r: "rest @ [h] = c # others" by (cases "rest @ [h]") auto
  then have sd: "set (c # others) = set (h # rest)" "distinct (c # others) = distinct (h # rest)"
    by (metis set_rotate1 rotate1.simps(2), metis distinct1_rotate rotate1.simps(2))
  show ?case
  proof (cases "hp c")
    case None
    with "3.prems" r show ?thesis by simp
  next
    case (Some rc)
    show ?thesis
    proof (cases "eligible rc")
      case True
      with "3.prems" r Some have "q' = c # others" by simp
      with Some True sd show ?thesis by blast
    next
      case False
      with "3.prems" r Some have "find_next hp n (c # others) = Inr (Some q')" by simp
      with "3.IH" [OF r Some False] sd show ?thesis by metis
    qed
  qed
qed simp_all

text \<open>The three ways \<open>schedule\<close> returns: a resumed call of the program, a resumed
  \<open>co_wait\<close> that reclaims its target, a first run.\<close>

lemma scan_order_set: "set (scan_order q) = set q"
  by (cases q) (auto simp: scan_order_def)

lemma scan_order_distinct: "distinct (scan_order q) = distinct q"
  by (cases q) (auto simp: scan_order_def)

lemma schedule_Inr:
  assumes "schedule site s = Inr s'" "mid s"
  obtains (user) n q r where
      "set q = set (co_queue s)" "distinct q = distinct (co_queue s)"
      "heap s n = Some r" "status r = CO_STATUS_RUNNING" "jmp_ctx r = Some Site_user"
      "s' = resume_stack n (s\<lparr>co_queue := q, current_co := Some n\<rparr>)"
      "q = turn_to n (scan_order (co_queue s))"
  | (wait) n q r t where
      "set q = set (co_queue s)" "distinct q = distinct (co_queue s)"
      "heap s n = Some r" "status r = CO_STATUS_RUNNING" "jmp_ctx r = Some (Site_wait t)"
      "reclaim t (resume_stack n (s\<lparr>co_queue := q, current_co := Some n\<rparr>)) = Inr s'"
      "q = turn_to n (scan_order (co_queue s))"
  | (first) n q r where
      "set q = set (co_queue s)" "distinct q = distinct (co_queue s)"
      "heap s n = Some r" "status r = CO_STATUS_NEW" "func r \<noteq> None"
      "s' = switch_stack n
              ((touch n (\<lambda>r. r\<lparr>status := CO_STATUS_RUNNING\<rparr>)
                  (s\<lparr>co_queue := q, current_co := Some n\<rparr>))
               \<lparr>entry_calls := entry_calls s @ [(n, func r, arg r)]\<rparr>)"
      "q = turn_to n (scan_order (co_queue s))"
proof -
  from assms(2) have s_ok: "struct_ok s" and no: "\<not> optimised s" by (simp_all add: mid_def)
  from s_ok have ne: "co_queue s \<noteq> []" and allin: "\<forall>p \<in> set (co_queue s). heap s p \<noteq> None"
    unfolding struct_ok_def by (metis empty_iff empty_set option.distinct(1), blast)
  let ?xs = "scan_order (co_queue s)"
  have "\<exists>n. find (can_run (heap s)) ?xs = Some n \<and>
          transfer site n (s\<lparr>co_queue := turn_to n ?xs, current_co := Some n\<rparr>) = Inr s'"
    using schedule_scan [OF ne allin, of site] assms(1)
    by (cases "find (can_run (heap s)) ?xs") simp_all
  then obtain n where n: "find (can_run (heap s)) ?xs = Some n"
    and tr0: "transfer site n (s\<lparr>co_queue := turn_to n ?xs, current_co := Some n\<rparr>) = Inr s'"
    by blast
  define q where "q = turn_to n ?xs"
  have q: "set q = set (co_queue s)" "distinct q = distinct (co_queue s)"
    by (simp_all add: q_def turn_to_set turn_to_distinct scan_order_set scan_order_distinct)
  from find_in_set [OF n] have "can_run (heap s) n" by simp
  then obtain r where r: "heap s n = Some r" "eligible r"
    by (auto simp: can_run_def split: option.splits)
  let ?s2 = "s\<lparr>co_queue := q, current_co := Some n\<rparr>"
  from tr0 have tr: "transfer site n ?s2 = Inr s'" by (simp add: q_def)
  show thesis
  proof (cases "status r = CO_STATUS_RUNNING")
    case True
    show ?thesis
    proof (cases "jmp_ctx r")
      case None
      with tr r True show ?thesis by (simp add: transfer_def)
    next
      case (Some saved)
      show ?thesis
      proof (cases saved)
        case Site_user
        with tr r True Some have "s' = resume_stack n ?s2"
          by (simp add: transfer_def yield_returns_def)
        with q r True Some Site_user q_def show ?thesis by (intro user) auto
      next
        case (Site_wait t)
        with tr r True Some have "reclaim t (resume_stack n ?s2) = Inr s'"
          by (simp add: transfer_def yield_returns_def)
        with q r True Some Site_wait q_def show ?thesis by (intro wait) auto
      next
        case Site_exit
        with tr r True Some show ?thesis by (simp add: transfer_def yield_returns_def)
      qed
    qed
  next
    case False
    with r(2) have new: "status r = CO_STATUS_NEW" by (simp add: eligible_def)
    have e: "?s2\<lparr>heap := (heap ?s2)(n \<mapsto> r\<lparr>status := CO_STATUS_RUNNING\<rparr>)\<rparr> =
          touch n (\<lambda>r. r\<lparr>status := CO_STATUS_RUNNING\<rparr>) ?s2"
      using r(1) by (intro touch_eq) simp
    from tr r new have f: "func r \<noteq> None"
      by (auto simp: transfer_def split: option.splits)
    from tr r new f no
    have "s' = switch_stack n
              (?s2\<lparr>heap := (heap ?s2)(n \<mapsto> r\<lparr>status := CO_STATUS_RUNNING\<rparr>),
                    entry_calls := entry_calls s @ [(n, func r, arg r)]\<rparr>)"
      by (auto simp: transfer_def store_251_def split: option.splits)
    also have "?s2\<lparr>heap := (heap ?s2)(n \<mapsto> r\<lparr>status := CO_STATUS_RUNNING\<rparr>),
                    entry_calls := entry_calls s @ [(n, func r, arg r)]\<rparr> =
          (touch n (\<lambda>r. r\<lparr>status := CO_STATUS_RUNNING\<rparr>) ?s2)
             \<lparr>entry_calls := entry_calls s @ [(n, func r, arg r)]\<rparr>"
      unfolding e [symmetric] by simp
    finally show ?thesis using q r new f q_def by (intro first) auto
  qed
qed

subsection \<open>The invariants are kept\<close>

lemma finished_iff:
  "finished s p \<longleftrightarrow>
     (heap s p = None \<and> p < brk s) \<or> (\<exists>r. heap s p = Some r \<and> status r = CO_STATUS_DEAD)"
  by (cases "heap s p") (simp_all add: finished_def)

lemma resumable_iff:
  "resumable s r \<longleftrightarrow>
     jmp_ctx r = Some Site_user \<or> (\<exists>t. jmp_ctx r = Some (Site_wait t) \<and> finished s t)"
  by (auto simp: resumable_def split: option.splits call_site.splits)

lemma finished_frame [simp]:
  "finished (s\<lparr>co_queue := q\<rparr>) = finished s"
  "finished (s\<lparr>current_co := x\<rparr>) = finished s"
  "finished (s\<lparr>entry_calls := l\<rparr>) = finished s"
  by (simp_all add: finished_iff fun_eq_iff)

lemma resumable_frame [simp]:
  "resumable (s\<lparr>co_queue := q\<rparr>) = resumable s"
  "resumable (s\<lparr>current_co := x\<rparr>) = resumable s"
  "resumable (s\<lparr>entry_calls := l\<rparr>) = resumable s"
  by (simp_all add: resumable_iff fun_eq_iff)

lemma waiters_ok_frame [simp]:
  "waiters_ok (s\<lparr>co_queue := q\<rparr>) = waiters_ok s"
  "waiters_ok (s\<lparr>current_co := x\<rparr>) = waiters_ok s"
  "waiters_ok (s\<lparr>entry_calls := l\<rparr>) = waiters_ok s"
  by (simp_all add: waiters_ok_def)

lemma resume_ok_all_frame [simp]:
  "resume_ok_all (s\<lparr>co_queue := q\<rparr>) = resume_ok_all s"
  "resume_ok_all (s\<lparr>current_co := x\<rparr>) = resume_ok_all s"
  "resume_ok_all (s\<lparr>entry_calls := l\<rparr>) = resume_ok_all s"
  by (simp_all add: resume_ok_all_def)

lemma resume_ok_frame [simp]:
  "resume_ok (s\<lparr>co_queue := q\<rparr>) = resume_ok s"
  "resume_ok (s\<lparr>entry_calls := l\<rparr>) = resume_ok s"
  by (simp_all add: resume_ok_def)

lemma logs_ok_frame [simp]:
  "logs_ok (s\<lparr>co_queue := q\<rparr>) = logs_ok s"
  "logs_ok (s\<lparr>current_co := x\<rparr>) = logs_ok s"
  by (simp_all add: logs_ok_def)

text \<open>No invariant depends on the stack in use or on the frames.\<close>

lemma finished_stack [simp]:
  "finished (s\<lparr>on_stack := x\<rparr>) = finished s"
  "finished (s\<lparr>launch := l\<rparr>) = finished s"
  "finished (resume_stack n s) = finished s"
  "finished (switch_stack n s) = finished s"
  by (simp_all add: finished_iff fun_eq_iff)

lemma resumable_stack [simp]:
  "resumable (s\<lparr>on_stack := x\<rparr>) = resumable s"
  "resumable (s\<lparr>launch := l\<rparr>) = resumable s"
  "resumable (resume_stack n s) = resumable s"
  "resumable (switch_stack n s) = resumable s"
  by (simp_all add: resumable_iff fun_eq_iff)

lemma waiters_ok_stack [simp]:
  "waiters_ok (s\<lparr>on_stack := x\<rparr>) = waiters_ok s"
  "waiters_ok (s\<lparr>launch := l\<rparr>) = waiters_ok s"
  "waiters_ok (resume_stack n s) = waiters_ok s"
  "waiters_ok (switch_stack n s) = waiters_ok s"
  by (simp_all add: waiters_ok_def)

lemma resume_ok_all_stack [simp]:
  "resume_ok_all (s\<lparr>on_stack := x\<rparr>) = resume_ok_all s"
  "resume_ok_all (s\<lparr>launch := l\<rparr>) = resume_ok_all s"
  "resume_ok_all (resume_stack n s) = resume_ok_all s"
  "resume_ok_all (switch_stack n s) = resume_ok_all s"
  by (simp_all add: resume_ok_all_def)

lemma resume_ok_stack [simp]:
  "resume_ok (s\<lparr>on_stack := x\<rparr>) = resume_ok s"
  "resume_ok (s\<lparr>launch := l\<rparr>) = resume_ok s"
  "resume_ok (resume_stack n s) = resume_ok s"
  "resume_ok (switch_stack n s) = resume_ok s"
  by (simp_all add: resume_ok_def)

lemma running_ok_stack [simp]:
  "running_ok (s\<lparr>on_stack := x\<rparr>) = running_ok s"
  "running_ok (s\<lparr>launch := l\<rparr>) = running_ok s"
  "running_ok (resume_stack n s) = running_ok s"
  "running_ok (switch_stack n s) = running_ok s"
  by (simp_all add: running_ok_def)

lemma logs_ok_stack [simp]:
  "logs_ok (s\<lparr>on_stack := x\<rparr>) = logs_ok s"
  "logs_ok (s\<lparr>launch := l\<rparr>) = logs_ok s"
  "logs_ok (resume_stack n s) = logs_ok s"
  "logs_ok (switch_stack n s) = logs_ok s"
  by (simp_all add: logs_ok_def)

lemma struct_ok_stack [simp]:
  "struct_ok (s\<lparr>on_stack := x\<rparr>) = struct_ok s"
  "struct_ok (s\<lparr>launch := l\<rparr>) = struct_ok s"
  "struct_ok (resume_stack n s) = struct_ok s"
  "struct_ok (switch_stack n s) = struct_ok s"
  by (simp_all add: struct_ok_def)

lemma inv_stack [simp]:
  "inv (s\<lparr>on_stack := x\<rparr>) = inv s"
  "inv (s\<lparr>launch := l\<rparr>) = inv s"
  "inv (resume_stack n s) = inv s"
  "inv (switch_stack n s) = inv s"
  by (simp_all add: inv_def)

lemma mid_stack [simp]:
  "mid (s\<lparr>on_stack := x\<rparr>) = mid s"
  "mid (s\<lparr>launch := l\<rparr>) = mid s"
  "mid (resume_stack n s) = mid s"
  "mid (switch_stack n s) = mid s"
  by (simp_all add: mid_def)

lemma in_entry_stack [simp]:
  "in_entry (s\<lparr>on_stack := x\<rparr>) = in_entry s"
  "in_entry (s\<lparr>launch := l\<rparr>) = in_entry s"
  by (simp_all add: in_entry_def split: option.split)

lemma struct_ok_pick:
  assumes "struct_ok s" "set q = set (co_queue s)" "distinct q = distinct (co_queue s)"
    "heap s n = Some r"
  shows "struct_ok (s\<lparr>co_queue := q, current_co := Some n\<rparr>)"
  using assms by (auto simp: struct_ok_def)

lemma mid_pick:
  assumes "mid s" "set q = set (co_queue s)" "distinct q = distinct (co_queue s)"
    "heap s n = Some r"
  shows "mid (s\<lparr>co_queue := q, current_co := Some n\<rparr>)"
  using assms struct_ok_pick [of s q n r] by (simp add: mid_def)

lemma inv_of_mid:
  assumes "mid s" "current_co s = Some n" "heap s n = Some r" "status r = CO_STATUS_RUNNING"
  shows "inv s"
  using assms by (auto simp: mid_def inv_def resume_ok_all_def resume_ok_def running_ok_def)

lemma tl_turn_to:
  assumes "t \<in> set q" "distinct q"
  shows "set (tl (turn_to t q)) = set q - {t} \<and> distinct (tl (turn_to t q))"
proof -
  from assms(1) obtain rest where r: "turn_to t q = t # rest" using turn_to_head by blast
  have "set (t # rest) = set q" "distinct (t # rest)"
    using turn_to_set [of t q] turn_to_distinct [of t q] assms(2) r by simp_all
  then show ?thesis using r by auto
qed

lemma reclaim_struct:
  assumes "struct_ok s" "t \<in> set (co_queue s)" "current_co s \<noteq> Some t"
  shows "struct_ok (s\<lparr>heap := (heap s)(t := None), co_queue := tl (turn_to t (co_queue s))\<rparr>)"
  using assms tl_turn_to [of t "co_queue s"]
  by (auto simp: struct_ok_def)

lemma reclaim_waiters:
  assumes "waiters_ok s" "heap s t = Some rt" "status rt = CO_STATUS_DEAD"
  shows "waiters_ok (s\<lparr>heap := (heap s)(t := None), co_queue := q\<rparr>)"
  using assms unfolding waiters_ok_def by (auto split: if_splits) fastforce+

lemma resumable_mono:
  assumes "resumable s r" "\<And>t. finished s t \<Longrightarrow> finished s' t"
  shows "resumable s' r"
  using assms unfolding resumable_iff by blast

lemma finished_reclaim:
  assumes "struct_ok s" "heap s t = Some rt" "finished s x"
  shows "finished (s\<lparr>heap := (heap s)(t := None), co_queue := q\<rparr>) x"
  using assms by (auto simp: finished_iff struct_ok_def)

lemma reclaim_resume:
  assumes "resume_ok s" "struct_ok s" "heap s t = Some rt"
  shows "resume_ok (s\<lparr>heap := (heap s)(t := None), co_queue := q\<rparr>)"
    (is "resume_ok ?s'")
  unfolding resume_ok_def
proof (intro allI impI, elim conjE)
  fix w rw
  assume w: "heap ?s' w = Some rw" "status rw = CO_STATUS_RUNNING" "current_co ?s' \<noteq> Some w"
  then have "heap s w = Some rw" "current_co s \<noteq> Some w" by (auto split: if_splits)
  with assms(1) w(2) have "resumable s rw" unfolding resume_ok_def by blast
  then show "resumable ?s' rw"
    by (rule resumable_mono) (rule finished_reclaim [OF assms(2,3)])
qed

lemma reclaim_logs:
  assumes "logs_ok s" "heap s t = Some rt" "status rt = CO_STATUS_DEAD"
  shows "logs_ok (s\<lparr>heap := (heap s)(t := None), co_queue := q\<rparr>)"
proof -
  from assms have tin: "t \<in> fst ` set (entry_calls s)" unfolding logs_ok_def by blast
  with assms(1) have "t \<noteq> main_co" unfolding logs_ok_def by blast
  with assms(1) tin show ?thesis unfolding logs_ok_def by (auto split: if_splits)
qed

lemma reclaim_inv:
  assumes "inv s" "finished s t" "reclaim t s = Inr s'"
  shows "inv s'"
proof -
  from assms(3) have tq: "t \<in> set (co_queue s)" and th: "heap s t \<noteq> None"
    and s': "s' = s\<lparr>heap := (heap s)(t := None), co_queue := tl (turn_to t (co_queue s))\<rparr>"
    using reclaim_Inr by blast+
  from th obtain rt where rt: "heap s t = Some rt" by blast
  with assms(2) have dead: "status rt = CO_STATUS_DEAD" by (simp add: finished_iff)
  from assms(1) obtain c rc where c: "current_co s = Some c" "heap s c = Some rc"
      "status rc = CO_STATUS_RUNNING"
    unfolding inv_def running_ok_def by blast
  with rt dead have ct: "c \<noteq> t" by auto
  have "struct_ok s'" unfolding s' using assms(1) tq c ct by (intro reclaim_struct) (auto simp: inv_def)
  moreover have "waiters_ok s'" unfolding s' using assms(1) rt dead
    by (intro reclaim_waiters) (auto simp: inv_def)
  moreover have "resume_ok s'" unfolding s' using assms(1) rt
    by (intro reclaim_resume) (auto simp: inv_def)
  moreover have "running_ok s'" unfolding s' running_ok_def using c ct by simp
  moreover have "logs_ok s'" unfolding s' using assms(1) rt dead
    by (intro reclaim_logs) (auto simp: inv_def)
  moreover have "\<not> optimised s'" unfolding s' using assms(1) by (simp add: inv_def)
  ultimately show ?thesis by (simp add: inv_def)
qed

lemma finished_touch:
  assumes "finished s x" "\<And>r. status r = CO_STATUS_DEAD \<Longrightarrow> status (g r) = CO_STATUS_DEAD"
  shows "finished (touch p g s) x"
  using assms by (auto simp: finished_iff)

lemma struct_ok_touch [simp]: "struct_ok (touch p g s) = struct_ok s"
  by (auto simp: struct_ok_def)

lemma logs_ok_new:
  "logs_ok s \<Longrightarrow> heap s p = Some r \<Longrightarrow> status r = CO_STATUS_NEW \<Longrightarrow>
   p \<notin> fst ` set (entry_calls s)"
  unfolding logs_ok_def by (elim conjE) blast

lemma logs_ok_dead:
  "logs_ok s \<Longrightarrow> heap s p = Some r \<Longrightarrow> status r = CO_STATUS_DEAD \<Longrightarrow>
   p \<in> fst ` set (entry_calls s)"
  unfolding logs_ok_def by (elim conjE) blast

lemma logs_ok_spawned:
  "logs_ok s \<Longrightarrow> heap s p = Some r \<Longrightarrow> (p, func r, arg r) \<in> set (spawn_log s)"
  unfolding logs_ok_def by (elim conjE) blast

lemma logs_ok_freed:
  "logs_ok s \<Longrightarrow> e \<in> set (spawn_log s) \<Longrightarrow> heap s (fst e) = None \<Longrightarrow>
   fst e \<in> fst ` set (entry_calls s)"
  unfolding logs_ok_def by (elim conjE) blast

lemma logs_ok_main:
  "logs_ok s \<Longrightarrow> main_co \<notin> fst ` set (entry_calls s) \<and>
   (\<exists>r. heap s main_co = Some r \<and> status r \<noteq> CO_STATUS_NEW \<and> func r = None \<and> arg r = None)"
  unfolding logs_ok_def by (elim conjE) blast

lemma logs_ok_lists:
  "logs_ok s \<Longrightarrow> (\<forall>e \<in> set (spawn_log s). fst e < brk s) \<and>
     distinct (map fst (spawn_log s)) \<and>
     set (entry_calls s) \<subseteq> set (spawn_log s) \<and>
     distinct (map fst (entry_calls s)) \<and>
     (\<forall>e \<in> set (entry_calls s). fst (snd e) \<noteq> None)"
  unfolding logs_ok_def by (elim conjE) (intro conjI; assumption)

lemma logs_okI:
  assumes "(\<forall>e \<in> set (spawn_log s). fst e < brk s) \<and>
     distinct (map fst (spawn_log s)) \<and>
     set (entry_calls s) \<subseteq> set (spawn_log s) \<and>
     distinct (map fst (entry_calls s)) \<and>
     (\<forall>e \<in> set (entry_calls s). fst (snd e) \<noteq> None)"
    and "\<And>p r. heap s p = Some r \<Longrightarrow> (p, func r, arg r) \<in> set (spawn_log s)"
    and "\<And>p r. heap s p = Some r \<Longrightarrow> status r = CO_STATUS_NEW \<Longrightarrow>
           p \<notin> fst ` set (entry_calls s)"
    and "\<And>p r. heap s p = Some r \<Longrightarrow> status r = CO_STATUS_DEAD \<Longrightarrow>
           p \<in> fst ` set (entry_calls s)"
    and "\<And>e. e \<in> set (spawn_log s) \<Longrightarrow> heap s (fst e) = None \<Longrightarrow>
           fst e \<in> fst ` set (entry_calls s)"
    and "main_co \<notin> fst ` set (entry_calls s)"
    and "\<exists>r. heap s main_co = Some r \<and> status r \<noteq> CO_STATUS_NEW \<and> func r = None \<and> arg r = None"
  shows "logs_ok s"
  unfolding logs_ok_def using assms by (intro conjI) blast+

lemma logs_ok_touch:
  assumes "logs_ok s"
    and "\<And>r. heap s p = Some r \<Longrightarrow> func (g r) = func r \<and> arg (g r) = arg r \<and>
          (status (g r) = status r \<or>
           (status (g r) \<noteq> CO_STATUS_NEW \<and>
            (status (g r) = CO_STATUS_DEAD \<longrightarrow> p \<in> fst ` set (entry_calls s))))"
  shows "logs_ok (touch p g s)"
proof (rule logs_okI)
  show "(\<forall>e \<in> set (spawn_log (touch p g s)). fst e < brk (touch p g s)) \<and>
     distinct (map fst (spawn_log (touch p g s))) \<and>
     set (entry_calls (touch p g s)) \<subseteq> set (spawn_log (touch p g s)) \<and>
     distinct (map fst (entry_calls (touch p g s))) \<and>
     (\<forall>e \<in> set (entry_calls (touch p g s)). fst (snd e) \<noteq> None)"
    using logs_ok_lists [OF assms(1)] by simp
next
  fix q r assume q: "heap (touch p g s) q = Some r"
  show "(q, func r, arg r) \<in> set (spawn_log (touch p g s))"
  proof (cases "q = p")
    case True
    with q obtain r0 where r0: "heap s p = Some r0" "r = g r0" by auto
    with assms(2) [OF r0(1)] logs_ok_spawned [OF assms(1) r0(1)] True show ?thesis by simp
  next
    case False
    with q logs_ok_spawned [OF assms(1), of q r] show ?thesis by simp
  qed
next
  fix q r assume q: "heap (touch p g s) q = Some r" "status r = CO_STATUS_NEW"
  have "\<exists>r0. heap s q = Some r0 \<and> status r0 = CO_STATUS_NEW"
  proof (cases "q = p")
    case True
    with q obtain r0 where r0: "heap s p = Some r0" "r = g r0" by auto
    with assms(2) [OF r0(1)] q(2) True show ?thesis by auto
  next
    case False
    with q show ?thesis by simp
  qed
  then show "q \<notin> fst ` set (entry_calls (touch p g s))"
    using logs_ok_new [OF assms(1)] by auto
next
  fix q r assume q: "heap (touch p g s) q = Some r" "status r = CO_STATUS_DEAD"
  show "q \<in> fst ` set (entry_calls (touch p g s))"
  proof (cases "q = p")
    case True
    with q obtain r0 where r0: "heap s p = Some r0" "r = g r0" by auto
    from assms(2) [OF r0(1)] q(2) r0(2)
    have "p \<in> fst ` set (entry_calls s) \<or> status r0 = CO_STATUS_DEAD" by auto
    with logs_ok_dead [OF assms(1) r0(1)] True show ?thesis by auto
  next
    case False
    with q have "heap s q = Some r" by simp
    from logs_ok_dead [OF assms(1) this q(2)] show ?thesis by simp
  qed
next
  fix e assume e: "e \<in> set (spawn_log (touch p g s))" "heap (touch p g s) (fst e) = None"
  then have "e \<in> set (spawn_log s)" "heap s (fst e) = None" by (auto split: if_splits)
  from logs_ok_freed [OF assms(1) this] show "fst e \<in> fst ` set (entry_calls (touch p g s))"
    by simp
next
  show "main_co \<notin> fst ` set (entry_calls (touch p g s))"
    using logs_ok_main [OF assms(1)] by simp
next
  from logs_ok_main [OF assms(1)] obtain r0 where r0: "heap s main_co = Some r0"
      "status r0 \<noteq> CO_STATUS_NEW" "func r0 = None" "arg r0 = None"
    by blast
  show "\<exists>r. heap (touch p g s) main_co = Some r \<and> status r \<noteq> CO_STATUS_NEW \<and>
             func r = None \<and> arg r = None"
  proof (cases "main_co = p")
    case True
    with r0 assms(2) [of r0] show ?thesis by auto
  next
    case False
    with r0 show ?thesis by simp
  qed
qed

lemma finished_touch_live:
  assumes "finished s x" "\<And>r. heap s p = Some r \<Longrightarrow> status r \<noteq> CO_STATUS_DEAD"
  shows "finished (touch p g s) x"
  using assms by (auto simp: finished_iff)

lemma inv_current:
  assumes "inv s"
  obtains c rc where "current_co s = Some c" "heap s c = Some rc" "status rc = CO_STATUS_RUNNING"
  using assms unfolding inv_def running_ok_def by blast

lemma waiters_okD:
  assumes "waiters_ok s" "heap s x = Some rx" "waiter rx = Some w" "status rx \<noteq> CO_STATUS_DEAD"
  obtains rw where "heap s w = Some rw" "status rw = CO_STATUS_WAITING"
    "jmp_ctx rw = Some (Site_wait x)"
  using assms unfolding waiters_ok_def by blast

text \<open>Saving the context of the running coroutine at a call of the program.\<close>

lemma save_user_mid:
  assumes "inv s" "current_co s = Some c"
  shows "mid (touch c (\<lambda>r. r\<lparr>jmp_ctx := Some Site_user\<rparr>) s)" (is "mid ?s'")
proof -
  from assms obtain rc where rc: "heap s c = Some rc" "status rc = CO_STATUS_RUNNING"
    by (auto elim: inv_current)
  have w_ok: "waiters_ok s" and r_ok: "resume_ok s" and l_ok: "logs_ok s" and s_ok: "struct_ok s"
    and o_ok: "\<not> optimised s"
    using assms(1) by (simp_all add: inv_def)
  have "waiters_ok ?s'"
    unfolding waiters_ok_def
  proof (intro allI impI, elim conjE)
    fix x rx w
    assume x: "heap ?s' x = Some rx" "waiter rx = Some w" "status rx \<noteq> CO_STATUS_DEAD"
    then obtain rx0 where rx0: "heap s x = Some rx0" "waiter rx0 = Some w"
        "status rx0 \<noteq> CO_STATUS_DEAD"
      by (cases "x = c") auto
    from waiters_okD [OF w_ok this] obtain rw where rw: "heap s w = Some rw"
        "status rw = CO_STATUS_WAITING" "jmp_ctx rw = Some (Site_wait x)" .
    with rc have "w \<noteq> c" by auto
    with rw show "\<exists>rw. heap ?s' w = Some rw \<and> status rw = CO_STATUS_WAITING \<and>
        jmp_ctx rw = Some (Site_wait x)" by simp
  qed
  moreover have "resume_ok_all ?s'"
    unfolding resume_ok_all_def
  proof (intro allI impI, elim conjE)
    fix w rw
    assume w: "heap ?s' w = Some rw" "status rw = CO_STATUS_RUNNING"
    show "resumable ?s' rw"
    proof (cases "w = c")
      case True
      with w rc show ?thesis by (auto simp: resumable_iff)
    next
      case False
      with w assms(2) r_ok have "resumable s rw" unfolding resume_ok_def by auto
      then show ?thesis
        by (rule resumable_mono) (rule finished_touch, simp_all)
    qed
  qed
  moreover have "logs_ok ?s'" using l_ok by (rule logs_ok_touch) simp
  ultimately show ?thesis using s_ok o_ok by (simp add: mid_def)
qed

text \<open>The first run of a new coroutine.\<close>

lemma first_run_inv:
  assumes "mid s" "current_co s = Some n" "heap s n = Some r" "status r = CO_STATUS_NEW"
    "func r \<noteq> None"
  shows "inv ((touch n (\<lambda>r. r\<lparr>status := CO_STATUS_RUNNING\<rparr>) s)
              \<lparr>entry_calls := entry_calls s @ [(n, func r, arg r)]\<rparr>)" (is "inv ?s'")
proof -
  let ?t = "touch n (\<lambda>r. r\<lparr>status := CO_STATUS_RUNNING\<rparr>) s"
  have w_ok: "waiters_ok s" and r_ok: "resume_ok_all s" and l_ok: "logs_ok s"
    and s_ok: "struct_ok s" and o_ok: "\<not> optimised s"
    using assms(1) by (simp_all add: mid_def)
  have "\<not> optimised ?s'" using o_ok by simp
  moreover have "struct_ok ?s'" using s_ok by (auto simp: struct_ok_def)
  moreover have "waiters_ok ?t"
    unfolding waiters_ok_def
  proof (intro allI impI, elim conjE)
    fix x rx w
    assume x: "heap ?t x = Some rx" "waiter rx = Some w" "status rx \<noteq> CO_STATUS_DEAD"
    then obtain rx0 where rx0: "heap s x = Some rx0" "waiter rx0 = Some w"
        "status rx0 \<noteq> CO_STATUS_DEAD"
      using assms(3,4) by (cases "x = n") auto
    from waiters_okD [OF w_ok this] obtain rw where rw: "heap s w = Some rw"
        "status rw = CO_STATUS_WAITING" "jmp_ctx rw = Some (Site_wait x)" .
    with assms(3,4) have "w \<noteq> n" by auto
    with rw show "\<exists>rw. heap ?t w = Some rw \<and> status rw = CO_STATUS_WAITING \<and>
        jmp_ctx rw = Some (Site_wait x)" by simp
  qed
  then have "waiters_ok ?s'" by simp
  moreover have "resume_ok ?t"
    unfolding resume_ok_def
  proof (intro allI impI, elim conjE)
    fix w rw
    assume w: "heap ?t w = Some rw" "status rw = CO_STATUS_RUNNING" "current_co ?t \<noteq> Some w"
    with assms(2) have "w \<noteq> n" by auto
    with w r_ok have "resumable s rw" unfolding resume_ok_all_def by auto
    then show "resumable ?t rw"
      by (rule resumable_mono) (rule finished_touch_live, insert assms(3,4), auto)
  qed
  then have "resume_ok ?s'" by simp
  moreover have "running_ok ?s'" using assms(2,3) by (simp add: running_ok_def)
  moreover have "logs_ok ?s'"
  proof (rule logs_okI)
    have "n \<notin> fst ` set (entry_calls s)" using logs_ok_new [OF l_ok assms(3,4)] .
    moreover have "(n, func r, arg r) \<in> set (spawn_log s)"
      using logs_ok_spawned [OF l_ok assms(3)] .
    ultimately show "(\<forall>e \<in> set (spawn_log ?s'). fst e < brk ?s') \<and>
       distinct (map fst (spawn_log ?s')) \<and>
       set (entry_calls ?s') \<subseteq> set (spawn_log ?s') \<and>
       distinct (map fst (entry_calls ?s')) \<and>
       (\<forall>e \<in> set (entry_calls ?s'). fst (snd e) \<noteq> None)"
      using logs_ok_lists [OF l_ok] assms(5) by auto
  next
    fix p rp assume "heap ?s' p = Some rp"
    then obtain r0 where "heap s p = Some r0" "func rp = func r0" "arg rp = arg r0"
      by (cases "p = n") auto
    with logs_ok_spawned [OF l_ok, of p r0]
    show "(p, func rp, arg rp) \<in> set (spawn_log ?s')" by simp
  next
    fix p rp assume p: "heap ?s' p = Some rp" "status rp = CO_STATUS_NEW"
    then have pn: "p \<noteq> n" by auto
    with p have "heap s p = Some rp" by simp
    from logs_ok_new [OF l_ok this p(2)] pn
    show "p \<notin> fst ` set (entry_calls ?s')" by simp
  next
    fix p rp assume p: "heap ?s' p = Some rp" "status rp = CO_STATUS_DEAD"
    then have pn: "p \<noteq> n" by auto
    with p have "heap s p = Some rp" by simp
    from logs_ok_dead [OF l_ok this p(2)]
    show "p \<in> fst ` set (entry_calls ?s')" by simp
  next
    fix e assume "e \<in> set (spawn_log ?s')" "heap ?s' (fst e) = None"
    then have "e \<in> set (spawn_log s)" "heap s (fst e) = None" by (auto split: if_splits)
    from logs_ok_freed [OF l_ok this]
    show "fst e \<in> fst ` set (entry_calls ?s')" by simp
  next
    from logs_ok_main [OF l_ok] assms(3,4) have "main_co \<noteq> n" by auto
    with logs_ok_main [OF l_ok]
    show "main_co \<notin> fst ` set (entry_calls ?s')"
      "\<exists>r. heap ?s' main_co = Some r \<and> status r \<noteq> CO_STATUS_NEW \<and> func r = None \<and> arg r = None"
      by auto
  qed
  ultimately show ?thesis by (simp add: inv_def)
qed

text \<open>The scheduler leads from a state inside \<open>co_yield\<close> to a state of the program.\<close>

lemma schedule_inv:
  assumes "mid s" "schedule site s = Inr s'"
  shows "inv s'"
  using assms(2,1)
proof (cases rule: schedule_Inr)
  case (user n q r)
  have "mid (s\<lparr>co_queue := q, current_co := Some n\<rparr>)"
    using assms(1) user(1-3) by (rule mid_pick)
  then show ?thesis unfolding user(6)
    using inv_of_mid [of "s\<lparr>co_queue := q, current_co := Some n\<rparr>" n r] user(3,4) by simp
next
  case (wait n q r t)
  let ?s2 = "s\<lparr>co_queue := q, current_co := Some n\<rparr>"
  have m2: "mid ?s2" using assms(1) wait(1-3) by (rule mid_pick)
  then have i2: "inv (resume_stack n ?s2)" using inv_of_mid [of ?s2 n r] wait(3,4) by simp
  from assms(1) wait(3,4) have "resumable s r" by (auto simp: mid_def resume_ok_all_def)
  with wait(5) have "finished (resume_stack n ?s2) t" by (simp add: resumable_iff)
  with i2 show ?thesis using wait(6) by (rule reclaim_inv)
next
  case (first n q r)
  let ?s2 = "s\<lparr>co_queue := q, current_co := Some n\<rparr>"
  have m2: "mid ?s2" using assms(1) first(1-3) by (rule mid_pick)
  have "inv ((touch n (\<lambda>r. r\<lparr>status := CO_STATUS_RUNNING\<rparr>) ?s2)
              \<lparr>entry_calls := entry_calls ?s2 @ [(n, func r, arg r)]\<rparr>)"
    using m2 first(3-5) by (intro first_run_inv) simp_all
  then show ?thesis unfolding first(6) by simp
qed

lemma co_yield_inv:
  assumes "inv s" "co_yield s = Inr s'"
  shows "inv s'"
proof -
  from assms(1) obtain c rc where c: "current_co s = Some c" "heap s c = Some rc"
    by (auto elim: inv_current)
  then have "co_yield s = schedule Site_user (touch c (\<lambda>r. r\<lparr>jmp_ctx := Some Site_user\<rparr>) s)"
    unfolding co_yield_def by (rule yield_from_touch)
  with assms(2) save_user_mid [OF assms(1) c(1)] show ?thesis
    by (auto intro: schedule_inv)
qed

text \<open>Registration as the waiter of a live target.\<close>

lemma wait_mid:
  assumes "inv s" "current_co s = Some c" "heap s t = Some rt" "status rt \<noteq> CO_STATUS_DEAD"
  shows "mid (touch c (\<lambda>r. r\<lparr>jmp_ctx := Some (Site_wait t)\<rparr>)
           (touch c (\<lambda>r. r\<lparr>status := CO_STATUS_WAITING\<rparr>)
             (touch t (\<lambda>r. r\<lparr>waiter := Some c\<rparr>) s)))" (is "mid ?s3")
proof -
  let ?s1 = "touch t (\<lambda>r. r\<lparr>waiter := Some c\<rparr>) s"
  let ?s2 = "touch c (\<lambda>r. r\<lparr>status := CO_STATUS_WAITING\<rparr>) ?s1"
  from assms obtain rc where rc: "heap s c = Some rc" "status rc = CO_STATUS_RUNNING"
    by (auto elim: inv_current)
  have w_ok: "waiters_ok s" and r_ok: "resume_ok s" and l_ok: "logs_ok s" and s_ok: "struct_ok s"
    and o_ok: "\<not> optimised s"
    using assms(1) by (simp_all add: inv_def)
  have c3: "\<exists>r3. heap ?s3 c = Some r3 \<and> status r3 = CO_STATUS_WAITING \<and>
      jmp_ctx r3 = Some (Site_wait t)"
    using rc assms(3) by auto
  have other: "\<And>p. p \<noteq> c \<Longrightarrow> p \<noteq> t \<Longrightarrow> heap ?s3 p = heap s p" by simp
  have same: "\<And>p r3. heap ?s3 p = Some r3 \<Longrightarrow> p \<noteq> c \<Longrightarrow>
      \<exists>r0. heap s p = Some r0 \<and> status r3 = status r0 \<and> jmp_ctx r3 = jmp_ctx r0 \<and>
        (p \<noteq> t \<longrightarrow> waiter r3 = waiter r0)"
    by (auto split: if_splits)
  have "waiters_ok ?s3"
    unfolding waiters_ok_def
  proof (intro allI impI, elim conjE)
    fix x rx w
    assume x: "heap ?s3 x = Some rx" "waiter rx = Some w" "status rx \<noteq> CO_STATUS_DEAD"
    show "\<exists>rw. heap ?s3 w = Some rw \<and> status rw = CO_STATUS_WAITING \<and>
        jmp_ctx rw = Some (Site_wait x)"
    proof (cases "x = t")
      case True
      with x(1,2) have "w = c" by (auto split: if_splits)
      with c3 True show ?thesis by simp
    next
      case False
      with x obtain rx0 where rx0: "heap s x = Some rx0" "waiter rx0 = Some w"
          "status rx0 \<noteq> CO_STATUS_DEAD"
        using rc by (cases "x = c") auto
      from waiters_okD [OF w_ok this] obtain rw where rw: "heap s w = Some rw"
          "status rw = CO_STATUS_WAITING" "jmp_ctx rw = Some (Site_wait x)" .
      with rc have "w \<noteq> c" by auto
      with rw show ?thesis by auto
    qed
  qed
  moreover have "resume_ok_all ?s3"
    unfolding resume_ok_all_def
  proof (intro allI impI, elim conjE)
    fix w rw
    assume w: "heap ?s3 w = Some rw" "status rw = CO_STATUS_RUNNING"
    with c3 have wc: "w \<noteq> c" by auto
    from same [OF w(1) wc] obtain r0 where r0: "heap s w = Some r0" "status rw = status r0"
        "jmp_ctx rw = jmp_ctx r0" by blast
    with w(2) wc assms(2) r_ok have "resumable s r0" unfolding resume_ok_def by auto
    with r0(3) have "resumable s rw" by (simp add: resumable_iff)
    moreover have "\<And>x. finished s x \<Longrightarrow> finished ?s3 x"
      using rc by (auto simp: finished_iff)
    ultimately show "resumable ?s3 rw" by (rule resumable_mono)
  qed
  moreover have "logs_ok ?s3"
    by (intro logs_ok_touch l_ok) auto
  ultimately show ?thesis using s_ok o_ok by (simp add: mid_def)
qed

lemma co_wait_inv:
  assumes "inv s" "co_wait t s = Inr s'"
  shows "inv s'"
proof -
  from assms(2) obtain rt where rt: "heap s t = Some rt"
    by (auto simp: co_wait_def split: option.splits)
  from assms(1) obtain c rc where c: "current_co s = Some c" "heap s c = Some rc"
    by (auto elim: inv_current)
  show ?thesis
  proof (cases "status rt = CO_STATUS_DEAD")
    case True
    with rt assms(2) have "reclaim t s = Inr s'" by (simp add: co_wait_def)
    moreover from True rt have "finished s t" by (simp add: finished_iff)
    ultimately show ?thesis using assms(1) by (auto intro: reclaim_inv)
  next
    case False
    from co_wait_live [OF rt False c] assms(2) wait_mid [OF assms(1) c(1) rt False]
    show ?thesis by (auto intro: schedule_inv)
  qed
qed

text \<open>The death of the running coroutine.\<close>

lemma exit_mid:
  assumes "inv s" "in_entry s" "current_co s = Some c" "heap s c = Some r"
  shows "mid (touch c (\<lambda>r. r\<lparr>jmp_ctx := Some Site_exit\<rparr>)
           (wake (waiter r) (touch c (\<lambda>r. r\<lparr>status := CO_STATUS_DEAD\<rparr>) s)))" (is "mid ?s3")
    and "\<forall>w. waiter r = Some w \<longrightarrow> heap s w \<noteq> None"
proof -
  let ?s1 = "touch c (\<lambda>r. r\<lparr>status := CO_STATUS_DEAD\<rparr>) s"
  from assms have run: "status r = CO_STATUS_RUNNING" by (auto elim: inv_current)
  have w_ok: "waiters_ok s" and r_ok: "resume_ok s" and l_ok: "logs_ok s" and s_ok: "struct_ok s"
    and o_ok: "\<not> optimised s"
    using assms(1) by (simp_all add: inv_def)
  have cin: "c \<in> fst ` set (entry_calls s)" using assms(2,3) by (simp add: in_entry_def)
  have wk: "\<And>w. waiter r = Some w \<Longrightarrow>
      \<exists>rw. heap s w = Some rw \<and> status rw = CO_STATUS_WAITING \<and>
        jmp_ctx rw = Some (Site_wait c) \<and> w \<noteq> c"
  proof -
    fix w assume "waiter r = Some w"
    from waiters_okD [OF w_ok assms(4) this] run obtain rw where rw: "heap s w = Some rw"
        "status rw = CO_STATUS_WAITING" "jmp_ctx rw = Some (Site_wait c)" by auto
    with assms(4) run have "w \<noteq> c" by auto
    with rw show "\<exists>rw. heap s w = Some rw \<and> status rw = CO_STATUS_WAITING \<and>
        jmp_ctx rw = Some (Site_wait c) \<and> w \<noteq> c" by blast
  qed
  then show "\<forall>w. waiter r = Some w \<longrightarrow> heap s w \<noteq> None" by fastforce
  have c3: "\<exists>r3. heap ?s3 c = Some r3 \<and> status r3 = CO_STATUS_DEAD"
    using assms(4) wk by (cases "waiter r") auto
  have woken: "\<And>w. waiter r = Some w \<Longrightarrow>
      \<exists>rw rw0. heap s w = Some rw0 \<and> heap ?s3 w = Some rw \<and> status rw = CO_STATUS_RUNNING \<and>
        jmp_ctx rw = Some (Site_wait c) \<and> status rw0 = CO_STATUS_WAITING \<and> waiter rw = waiter rw0"
    using wk by fastforce
  have other: "\<And>p. p \<noteq> c \<Longrightarrow> waiter r \<noteq> Some p \<Longrightarrow> heap ?s3 p = heap s p"
    by (cases "waiter r") auto
  have "waiters_ok ?s3"
    unfolding waiters_ok_def
  proof (intro allI impI, elim conjE)
    fix x rx w
    assume x: "heap ?s3 x = Some rx" "waiter rx = Some w" "status rx \<noteq> CO_STATUS_DEAD"
    with c3 have xc: "x \<noteq> c" by auto
    have "\<exists>rx0. heap s x = Some rx0 \<and> waiter rx0 = Some w \<and> status rx0 \<noteq> CO_STATUS_DEAD"
    proof (cases "waiter r = Some x")
      case True
      from woken [OF this] x show ?thesis by auto
    next
      case False
      with xc x(1) other [of x] have "heap s x = Some rx" by simp
      with x(2,3) show ?thesis by blast
    qed
    then obtain rx0 where rx0: "heap s x = Some rx0" "waiter rx0 = Some w"
        "status rx0 \<noteq> CO_STATUS_DEAD" by blast
    from waiters_okD [OF w_ok this] obtain rw where rw: "heap s w = Some rw"
        "status rw = CO_STATUS_WAITING" "jmp_ctx rw = Some (Site_wait x)" .
    with assms(4) run have wc: "w \<noteq> c" by auto
    have "waiter r \<noteq> Some w"
    proof
      assume "waiter r = Some w"
      from wk [OF this] rw xc show False by auto
    qed
    with wc rw other [of w] show "\<exists>rw. heap ?s3 w = Some rw \<and> status rw = CO_STATUS_WAITING \<and>
        jmp_ctx rw = Some (Site_wait x)" by simp
  qed
  moreover have fin: "\<And>x. finished s x \<Longrightarrow> finished ?s3 x"
  proof -
    fix x assume f: "finished s x"
    show "finished ?s3 x"
    proof (cases "x = c")
      case True
      with c3 show ?thesis by (auto simp: finished_iff)
    next
      case False
      have "waiter r \<noteq> Some x"
      proof
        assume "waiter r = Some x"
        from wk [OF this] f show False by (auto simp: finished_iff)
      qed
      with False other [of x] f show ?thesis by (cases "waiter r") (auto simp: finished_iff)
    qed
  qed
  have "resume_ok_all ?s3"
    unfolding resume_ok_all_def
  proof (intro allI impI, elim conjE)
    fix w rw
    assume w: "heap ?s3 w = Some rw" "status rw = CO_STATUS_RUNNING"
    with c3 have wc: "w \<noteq> c" by auto
    show "resumable ?s3 rw"
    proof (cases "waiter r = Some w")
      case True
      from woken [OF this] w(1) have "jmp_ctx rw = Some (Site_wait c)" by auto
      moreover from c3 have "finished ?s3 c" by (auto simp: finished_iff)
      ultimately show ?thesis by (simp add: resumable_iff)
    next
      case False
      with wc w other [of w] have "heap s w = Some rw" by simp
      with w(2) wc assms(3) r_ok have "resumable s rw" unfolding resume_ok_def by auto
      then show ?thesis using fin by (rule resumable_mono)
    qed
  qed
  moreover have "logs_ok ?s3"
  proof -
    have "logs_ok ?s1" using l_ok cin by (intro logs_ok_touch) auto
    then have "logs_ok (wake (waiter r) ?s1)"
      by (cases "waiter r") (auto intro!: logs_ok_touch)
    then show ?thesis by (intro logs_ok_touch) auto
  qed
  moreover have "struct_ok ?s3" using s_ok by (cases "waiter r") simp_all
  moreover have "\<not> optimised ?s3" using o_ok by (cases "waiter r") simp_all
  ultimately show "mid ?s3" by (simp add: mid_def)
qed

lemma entry_returned_inv:
  assumes "inv s" "in_entry s" "entry_returned s = Inr s'"
  shows "inv s'"
proof -
  from assms(1) obtain c r where c: "current_co s = Some c" "heap s c = Some r"
    by (auto elim: inv_current)
  from entry_returned_touch [OF c exit_mid(2) [OF assms(1,2) c]] assms(3)
    exit_mid(1) [OF assms(1,2) c]
  show ?thesis by (auto intro: schedule_inv)
qed

text \<open>The return of an entry function: the way back to line 260 changes the stack in use
  and the frames only.\<close>

lemma stack_switch_return_Inr:
  assumes "stack_switch_return s = Inr s0"
  obtains x l where "s0 = s\<lparr>on_stack := x, launch := l\<rparr>"
proof (cases "optimised s")
  case True
  with assms have "s0 = s\<lparr>on_stack := on_stack s, launch := launch s\<rparr>"
    by (simp add: stack_switch_return_def)
  then show ?thesis by (rule that)
next
  case False
  with assms obtain c l0 where "s0 = s\<lparr>on_stack := l0, launch := (launch s)(c := None)\<rparr>"
    by (auto simp: stack_switch_return_def split: option.splits)
  then show ?thesis by (rule that)
qed

lemma entry_exit_Inr:
  assumes "entry_exit s = Inr s'"
  obtains x l where "entry_returned (s\<lparr>on_stack := x, launch := l\<rparr>) = Inr s'"
proof -
  from assms obtain s0 where s0: "stack_switch_return s = Inr s0" "entry_returned s0 = Inr s'"
    by (auto simp: entry_exit_def split: sum.splits)
  from stack_switch_return_Inr [OF s0(1)] s0(2) that show ?thesis by metis
qed

lemma entry_exit_inv:
  assumes "inv s" "in_entry s" "entry_exit s = Inr s'"
  shows "inv s'"
proof -
  from entry_exit_Inr [OF assms(3)] obtain x l
    where "entry_returned (s\<lparr>on_stack := x, launch := l\<rparr>) = Inr s'" .
  moreover have "inv (s\<lparr>on_stack := x, launch := l\<rparr>)" "in_entry (s\<lparr>on_stack := x, launch := l\<rparr>)"
    using assms(1,2) by simp_all
  ultimately show ?thesis using entry_returned_inv by blast
qed

lemma co_start_eq:
  "co_start nm f a s =
     (brk s, s\<lparr>heap := (heap s)(brk s \<mapsto> \<lparr>name = nm, func = f, arg = a,
                   status = CO_STATUS_NEW, waiter = None, jmp_ctx = None\<rparr>),
               co_queue := co_queue s @ [brk s], brk := Suc (brk s),
               spawn_log := spawn_log s @ [(brk s, f, a)]\<rparr>)"
  by (simp add: co_start_def co_queue_insert_def Let_def)

lemma main_co_eq: "main_co = 1"
  by (simp add: main_co_def co_start_eq boot_def)

lemma logs_ok_below:
  assumes "logs_ok s"
  shows "p \<in> fst ` set (spawn_log s) \<Longrightarrow> p < brk s"
    and "p \<in> fst ` set (entry_calls s) \<Longrightarrow> p < brk s"
proof -
  have a: "\<forall>e \<in> set (spawn_log s). fst e < brk s"
    and b: "set (entry_calls s) \<subseteq> set (spawn_log s)"
    using logs_ok_lists [OF assms] by simp_all
  show "p \<in> fst ` set (spawn_log s) \<Longrightarrow> p < brk s" using a by auto
  show "p \<in> fst ` set (entry_calls s) \<Longrightarrow> p < brk s" using a b by auto
qed

lemma co_start_inv:
  assumes "inv s"
  shows "inv (snd (co_start nm f a s))" (is "inv ?s'")
proof -
  have w_ok: "waiters_ok s" and r_ok: "resume_ok s" and l_ok: "logs_ok s" and s_ok: "struct_ok s"
    and run: "running_ok s"
    using assms(1) by (simp_all add: inv_def)
  have fresh: "heap s (brk s) = None"
  proof (rule ccontr)
    assume "heap s (brk s) \<noteq> None"
    with s_ok have "brk s < brk s" unfolding struct_ok_def by blast
    then show False by simp
  qed
  have hp: "\<And>p rp. heap ?s' p = Some rp \<Longrightarrow> p \<noteq> brk s \<Longrightarrow> heap s p = Some rp"
    by (simp add: co_start_eq)
  have new: "\<And>rp. heap ?s' (brk s) = Some rp \<Longrightarrow>
      status rp = CO_STATUS_NEW \<and> waiter rp = None \<and> func rp = f \<and> arg rp = a"
    by (auto simp: co_start_eq)
  have old: "\<And>p rp. heap s p = Some rp \<Longrightarrow> heap ?s' p = Some rp"
    using fresh by (auto simp: co_start_eq)
  have "struct_ok ?s'"
  proof -
    have nq: "brk s \<notin> set (co_queue s)" using s_ok fresh unfolding struct_ok_def by blast
    have "distinct (co_queue ?s')" using s_ok nq by (simp add: co_start_eq struct_ok_def)
    moreover have "\<forall>p. (heap ?s' p \<noteq> None) = (p \<in> set (co_queue ?s'))"
      using s_ok by (auto simp: co_start_eq struct_ok_def)
    moreover have "\<forall>p. heap ?s' p \<noteq> None \<longrightarrow> p < brk ?s'"
      using s_ok by (auto simp: co_start_eq struct_ok_def less_Suc_eq)
    moreover have "\<exists>c r. current_co ?s' = Some c \<and> heap ?s' c = Some r"
    proof -
      from run obtain c r where "current_co s = Some c" "heap s c = Some r"
        unfolding running_ok_def by blast
      with old [of c r] show ?thesis by (auto simp: co_start_eq)
    qed
    ultimately show ?thesis unfolding struct_ok_def by blast
  qed
  moreover have "waiters_ok ?s'"
    unfolding waiters_ok_def
  proof (intro allI impI, elim conjE)
    fix x rx w
    assume x: "heap ?s' x = Some rx" "waiter rx = Some w" "status rx \<noteq> CO_STATUS_DEAD"
    with new [of rx] have "x \<noteq> brk s" by auto
    from waiters_okD [OF w_ok hp [OF x(1) this] x(2,3)] obtain rw where rw: "heap s w = Some rw"
        "status rw = CO_STATUS_WAITING" "jmp_ctx rw = Some (Site_wait x)" .
    with old [OF rw(1)] show "\<exists>rw. heap ?s' w = Some rw \<and> status rw = CO_STATUS_WAITING \<and>
        jmp_ctx rw = Some (Site_wait x)" by blast
  qed
  moreover have "resume_ok ?s'"
    unfolding resume_ok_def
  proof (intro allI impI, elim conjE)
    fix w rw
    assume w: "heap ?s' w = Some rw" "status rw = CO_STATUS_RUNNING" "current_co ?s' \<noteq> Some w"
    with new [of rw] have "w \<noteq> brk s" by auto
    from hp [OF w(1) this] w(2,3) r_ok have "resumable s rw"
      unfolding resume_ok_def by (auto simp: co_start_eq)
    moreover have "\<And>x. finished s x \<Longrightarrow> finished ?s' x"
      using fresh by (auto simp: finished_iff co_start_eq)
    ultimately show "resumable ?s' rw" by (rule resumable_mono)
  qed
  moreover have "running_ok ?s'"
  proof -
    from run obtain c r where c: "current_co s = Some c" "heap s c = Some r"
        "status r = CO_STATUS_RUNNING"
      unfolding running_ok_def by blast
    from c(1) old [OF c(2)] c(3) show ?thesis
      unfolding running_ok_def by (auto simp: co_start_eq)
  qed
  moreover have "logs_ok ?s'"
  proof (rule logs_okI)
    have "brk s \<notin> fst ` set (spawn_log s)" using logs_ok_below(1) [OF l_ok, of "brk s"] by auto
    then show "(\<forall>e \<in> set (spawn_log ?s'). fst e < brk ?s') \<and>
       distinct (map fst (spawn_log ?s')) \<and>
       set (entry_calls ?s') \<subseteq> set (spawn_log ?s') \<and>
       distinct (map fst (entry_calls ?s')) \<and>
       (\<forall>e \<in> set (entry_calls ?s'). fst (snd e) \<noteq> None)"
      using logs_ok_lists [OF l_ok] by (auto simp: co_start_eq less_Suc_eq)
  next
    fix p rp assume p: "heap ?s' p = Some rp"
    show "(p, func rp, arg rp) \<in> set (spawn_log ?s')"
    proof (cases "p = brk s")
      case True
      with new [of rp] p show ?thesis by (simp add: co_start_eq)
    next
      case False
      from logs_ok_spawned [OF l_ok hp [OF p False]] show ?thesis by (simp add: co_start_eq)
    qed
  next
    fix p rp assume p: "heap ?s' p = Some rp" "status rp = CO_STATUS_NEW"
    show "p \<notin> fst ` set (entry_calls ?s')"
    proof (cases "p = brk s")
      case True
      have "brk s \<notin> fst ` set (entry_calls s)"
        using logs_ok_below(2) [OF l_ok, of "brk s"] by auto
      with True show ?thesis by (simp add: co_start_eq)
    next
      case False
      from logs_ok_new [OF l_ok hp [OF p(1) False] p(2)] show ?thesis by (simp add: co_start_eq)
    qed
  next
    fix p rp assume p: "heap ?s' p = Some rp" "status rp = CO_STATUS_DEAD"
    with new [of rp] have "p \<noteq> brk s" by auto
    from logs_ok_dead [OF l_ok hp [OF p(1) this] p(2)]
    show "p \<in> fst ` set (entry_calls ?s')" by (simp add: co_start_eq)
  next
    fix e assume "e \<in> set (spawn_log ?s')" "heap ?s' (fst e) = None"
    then have "e \<in> set (spawn_log s)" "heap s (fst e) = None"
      by (auto simp: co_start_eq split: if_splits)
    from logs_ok_freed [OF l_ok this]
    show "fst e \<in> fst ` set (entry_calls ?s')" by (simp add: co_start_eq)
  next
    from logs_ok_main [OF l_ok] obtain r0 where r0: "main_co \<notin> fst ` set (entry_calls s)"
        "heap s main_co = Some r0" "status r0 \<noteq> CO_STATUS_NEW" "func r0 = None" "arg r0 = None"
      by blast
    from r0(1) show "main_co \<notin> fst ` set (entry_calls ?s')" by (simp add: co_start_eq)
    from old [OF r0(2)] r0(3-5)
    show "\<exists>r. heap ?s' main_co = Some r \<and> status r \<noteq> CO_STATUS_NEW \<and> func r = None \<and> arg r = None"
      by blast
  qed
  moreover have "\<not> optimised ?s'" using assms by (simp add: inv_def co_start_eq)
  ultimately show ?thesis by (simp add: inv_def)
qed

lemma inv_co_initialize: "inv co_initialize"
  unfolding inv_def struct_ok_def waiters_ok_def resume_ok_def running_ok_def logs_ok_def
  by (simp add: co_initialize_eq main_co_eq)

lemma fire_inv:
  assumes "inv s" "fire e s = Inr s'"
  shows "inv s'"
proof (cases e)
  case (Ev_start nm f a)
  with assms co_start_inv [of s nm f a] show ?thesis by auto
next
  case Ev_yield
  with assms show ?thesis by (auto intro: co_yield_inv)
next
  case (Ev_wait t)
  with assms show ?thesis by (auto intro: co_wait_inv)
next
  case Ev_return
  with assms show ?thesis by (auto split: if_splits intro: entry_exit_inv)
qed

lemma run_append:
  "run (es @ [e]) s = (case run es s of Inl h \<Rightarrow> Inl h | Inr s' \<Rightarrow> fire e s')"
  by (induction es arbitrary: s) (auto split: sum.splits)

lemma reachable_induct [consumes 1, case_names init fire]:
  assumes "reachable s"
    and "P co_initialize"
    and "\<And>s e s'. reachable s \<Longrightarrow> P s \<Longrightarrow> fire e s = Inr s' \<Longrightarrow> P s'"
  shows "P s"
proof -
  from assms(1) obtain es where "run es co_initialize = Inr s" by (auto simp: reachable_def)
  then show ?thesis
  proof (induction es arbitrary: s rule: rev_induct)
    case Nil
    with assms(2) show ?case by simp
  next
    case (snoc e es)
    then obtain s0 where s0: "run es co_initialize = Inr s0" "fire e s0 = Inr s"
      by (auto simp: run_append split: sum.splits)
    then have "reachable s0" by (auto simp: reachable_def)
    from this snoc.IH [OF s0(1)] s0(2) show ?case by (rule assms(3))
  qed
qed

lemma reachable_inv: "reachable s \<Longrightarrow> inv s"
  by (induction rule: reachable_induct) (auto intro: inv_co_initialize fire_inv)

subsection \<open>The primordial record\<close>

lemma outcome_reachable:
  "returns (run es co_initialize) \<Longrightarrow> reachable (outcome (run es co_initialize))"
  unfolding reachable_def returns_def outcome_def
  by (cases "run es co_initialize") auto

lemma wait_returns: "returns (run demo_wait co_initialize)"
  by code_simp

text \<open>C10: \<open>co_initialize\<close> creates the primordial record with a \<open>NULL\<close> entry function
  and a \<open>NULL\<close> argument and makes it \<open>CO_STATUS_RUNNING\<close>; in every state the program can
  reach the record exists, is not \<open>CO_STATUS_NEW\<close>, and \<open>stack_switch_call\<close> has never
  been applied to it; no call of a \<open>NULL\<close> entry function has been made.\<close>

theorem primordial_is_never_started:
  assumes "reachable s"
  shows "current_co co_initialize = Some main_co \<and>
         heap co_initialize main_co =
           Some \<lparr>name = ''main'', func = None, arg = None, status = CO_STATUS_RUNNING,
                 waiter = None, jmp_ctx = None\<rparr> \<and>
         (\<exists>r. heap s main_co = Some r \<and> func r = None \<and> arg r = None \<and>
              status r \<noteq> CO_STATUS_NEW) \<and>
         main_co \<notin> fst ` set (entry_calls s) \<and>
         (\<forall>e \<in> set (entry_calls s). fst (snd e) \<noteq> None)"
proof -
  from assms have "logs_ok s" using reachable_inv by (simp add: inv_def)
  from logs_ok_main [OF this] logs_ok_lists [OF this] show ?thesis
    by (auto simp: co_initialize_eq main_co_eq)
qed

theorem primordial_is_never_started_witness:
  "reachable (outcome (run demo_wait co_initialize)) \<and>
   status_of (outcome (run demo_wait co_initialize)) main_co = Some CO_STATUS_RUNNING \<and>
   main_co \<notin> fst ` set (entry_calls (outcome (run demo_wait co_initialize)))"
proof -
  let ?s = "outcome (run demo_wait co_initialize)"
  have r: "reachable ?s" using wait_returns by (rule outcome_reachable)
  have st: "status_of ?s main_co = Some CO_STATUS_RUNNING" by code_simp
  from primordial_is_never_started [OF r] r st show ?thesis by blast
qed

subsection \<open>What a call changes in the other records\<close>






lemma outcome_Inr: "returns x \<Longrightarrow> x = Inr (outcome x)"
  unfolding returns_def outcome_def by (cases x) auto

subsection \<open>Entry functions that yield before they return\<close>

text \<open>C1 fails on the code for coroutines that yield.  In \<open>demo_round\<close> A, B and C yield
  once each before they return.  In the unoptimised build the frame through which the
  entry function of A has to return lies on the stack of the primordial flow, which has
  run since: the ninth call, the return of A, does not lead back to line 260, A is not
  marked \<open>CO_STATUS_DEAD\<close> and the program does not run to completion.  In the optimised
  build the store of line 251 is missing: A is still \<open>CO_STATUS_NEW\<close> after its first run,
  and when the primordial flow yields for the second time (the eighth call) the entry
  function of A is called again, from its first instruction.\<close>

theorem entry_called_twice_or_never_left:
  "returns (run (take 8 demo_round) co_initialize) \<and>
   current_co (outcome (run (take 8 demo_round) co_initialize)) = Some 2 \<and>
   in_entry (outcome (run (take 8 demo_round) co_initialize)) \<and>
   status_of (outcome (run (take 8 demo_round) co_initialize)) 2 = Some CO_STATUS_RUNNING \<and>
   launch (outcome (run (take 8 demo_round) co_initialize)) 2 = None \<and>
   halted (run (take 9 demo_round) co_initialize) = Some Undefined \<and>
   returns (run (take 8 demo_round) co_initialize_opt) \<and>
   status_of (outcome (run (take 4 demo_round) co_initialize_opt)) 2 = Some CO_STATUS_NEW \<and>
   entry_calls (outcome (run (take 7 demo_round) co_initialize_opt)) =
     [(2, Some 10, Some 100), (3, Some 11, Some 101), (4, Some 12, Some 102)] \<and>
   entry_calls (outcome (run (take 8 demo_round) co_initialize_opt)) =
     [(2, Some 10, Some 100), (3, Some 11, Some 101), (4, Some 12, Some 102),
      (2, Some 10, Some 100)]"
  by code_simp

text \<open>C5 fails on the code in the unoptimised build.  In \<open>demo_stale\<close> the primordial
  flow starts A, A yields and B waits for A; then the primordial flow runs and yields,
  and A runs again.  The frame through which the entry function of A has to return lies
  on the stack of the primordial flow, which has run since.  When A returns, control does
  not come back to line 260 with the state of the C text: A is not marked
  \<open>CO_STATUS_DEAD\<close>, its waiter B is not marked \<open>CO_STATUS_RUNNING\<close> and the scheduler
  is not entered from line 272.\<close>

theorem return_through_stale_frame:
  "returns (run (take 6 demo_stale) co_initialize) \<and>
   in_entry (outcome (run (take 6 demo_stale) co_initialize)) \<and>
   current_co (outcome (run (take 6 demo_stale) co_initialize)) = Some 2 \<and>
   status_of (outcome (run (take 6 demo_stale) co_initialize)) 2 = Some CO_STATUS_RUNNING \<and>
   map_option waiter (heap (outcome (run (take 6 demo_stale) co_initialize)) 2) = Some (Some 3) \<and>
   status_of (outcome (run (take 6 demo_stale) co_initialize)) 3 = Some CO_STATUS_WAITING \<and>
   launch (outcome (run (take 6 demo_stale) co_initialize)) 2 = None \<and>
   halted (stack_switch_return (outcome (run (take 6 demo_stale) co_initialize))) =
     Some Undefined \<and>
   halted (fire Ev_return (outcome (run (take 6 demo_stale) co_initialize))) = Some Undefined \<and>
   halted (run demo_stale co_initialize) = Some Undefined"
  by code_simp

subsection \<open>Waking a waiter\<close>







subsection \<open>Destruction of records\<close>

lemma co_cleanup_eq:
  "co_cleanup s =
     s\<lparr>heap := (\<lambda>p. if p \<in> set (co_queue s) then None else heap s p), co_queue := []\<rparr>"
proof (induction "length (co_queue s)" arbitrary: s)
  case 0
  then show ?case by (subst co_cleanup.simps) simp
next
  case (Suc k)
  then obtain v rest where q: "co_queue s = v # rest" by (cases "co_queue s") auto
  let ?s1 = "s\<lparr>co_queue := rest, heap := (heap s)(v := None)\<rparr>"
  have "co_cleanup s = co_cleanup ?s1"
    using q by (subst co_cleanup.simps) (simp add: co_queue_remove_def)
  also have "\<dots> = ?s1\<lparr>heap := (\<lambda>p. if p \<in> set (co_queue ?s1) then None else heap ?s1 p),
                      co_queue := []\<rparr>"
    using Suc.hyps(2) q by (intro Suc.hyps(1)) simp
  also have "\<dots> = s\<lparr>heap := (\<lambda>p. if p \<in> set (co_queue s) then None else heap s p),
                     co_queue := []\<rparr>"
    using q by (auto simp: fun_eq_iff)
  finally show ?case .
qed

lemma vanish_schedule:
  assumes "schedule site s = Inr s'" "mid s" "heap s p \<noteq> None" "heap s' p = None"
  shows "\<exists>w rw. current_co s' = Some w \<and> heap s w = Some rw \<and>
           status rw = CO_STATUS_RUNNING \<and> jmp_ctx rw = Some (Site_wait p)"
  using assms(1,2)
proof (cases rule: schedule_Inr)
  case (user n q r)
  with assms(3,4) show ?thesis by simp
next
  case (wait n q r t)
  from reclaim_Inr [OF wait(6)] assms(3,4) have "p = t" "current_co s' = Some n"
    by (auto split: if_splits)
  with wait(3,4,5) show ?thesis by blast
next
  case (first n q r)
  with assms(3,4) show ?thesis by (auto split: if_splits)
qed

lemma vanish_returned:
  assumes "inv s" "in_entry s" "entry_returned s = Inr s'" "heap s p \<noteq> None" "heap s' p = None"
  shows "\<exists>w rw. current_co s' = Some w \<and> heap s w = Some rw \<and> jmp_ctx rw = Some (Site_wait p)"
proof -
  from assms(1) obtain c rc where c: "current_co s = Some c" "heap s c = Some rc"
    by (auto elim: inv_current)
  let ?s3 = "touch c (\<lambda>r. r\<lparr>jmp_ctx := Some Site_exit\<rparr>)
              (wake (waiter rc) (touch c (\<lambda>r. r\<lparr>status := CO_STATUS_DEAD\<rparr>) s))"
  from entry_returned_touch [OF c exit_mid(2) [OF assms(1,2) c]] assms(3)
  have sch: "schedule Site_exit ?s3 = Inr s'" by simp
  have dom: "heap ?s3 p \<noteq> None" using assms(4) by (cases "waiter rc") auto
  from vanish_schedule [OF sch exit_mid(1) [OF assms(1,2) c] dom assms(5)]
  obtain w rw where w: "current_co s' = Some w" "heap ?s3 w = Some rw"
      "jmp_ctx rw = Some (Site_wait p)"
    by blast
  from w(2,3) have "\<exists>r0. heap s w = Some r0 \<and> jmp_ctx r0 = jmp_ctx rw"
    by (cases "waiter rc"; cases "w = c") (auto split: if_splits)
  with w(1,3) show ?thesis by auto
qed

lemma vanish_fire:
  assumes "inv s" "fire e s = Inr s'" "heap s p \<noteq> None" "heap s' p = None"
  shows "e = Ev_wait p \<or>
         (\<exists>w rw. current_co s' = Some w \<and> heap s w = Some rw \<and>
            jmp_ctx rw = Some (Site_wait p))"
proof -
  from assms(1) obtain c rc where c: "current_co s = Some c" "heap s c = Some rc"
      "status rc = CO_STATUS_RUNNING"
    by (auto elim: inv_current)
  let ?G = ?thesis
  have by_sched: ?G
    if sch: "schedule site s1 = Inr s'" and m: "mid s1" and dom: "heap s1 p \<noteq> None"
      and orig: "\<And>w rw. heap s1 w = Some rw \<Longrightarrow> status rw = CO_STATUS_RUNNING \<Longrightarrow>
         jmp_ctx rw = Some (Site_wait p) \<Longrightarrow> \<exists>r0. heap s w = Some r0 \<and> jmp_ctx r0 = jmp_ctx rw"
    for site s1
  proof -
    from vanish_schedule [OF sch m dom assms(4)] obtain w rw where w: "current_co s' = Some w"
        "heap s1 w = Some rw" "status rw = CO_STATUS_RUNNING" "jmp_ctx rw = Some (Site_wait p)"
      by blast
    from orig [OF w(2-4)] w(1,4) show ?thesis by auto
  qed
  show ?thesis
  proof (cases e)
    case (Ev_start nm f a)
    with assms(2-4) show ?thesis by (auto simp: co_start_eq split: if_splits)
  next
    case Ev_yield
    let ?s1 = "touch c (\<lambda>r. r\<lparr>jmp_ctx := Some Site_user\<rparr>) s"
    from assms(2) Ev_yield yield_from_touch [OF c(1,2), of Site_user]
    have "schedule Site_user ?s1 = Inr s'" by (simp add: co_yield_def)
    then show ?thesis
    proof (rule by_sched)
      show "mid ?s1" using assms(1) c(1) by (rule save_user_mid)
    next
      show "heap ?s1 p \<noteq> None" using assms(3) by auto
    next
      fix w rw assume "heap ?s1 w = Some rw" "jmp_ctx rw = Some (Site_wait p)"
      then show "\<exists>r0. heap s w = Some r0 \<and> jmp_ctx r0 = jmp_ctx rw"
        by (cases "w = c") auto
    qed
  next
    case (Ev_wait t)
    with assms(2) obtain rt where rt: "heap s t = Some rt"
      by (auto simp: co_wait_def split: option.splits)
    show ?thesis
    proof (cases "status rt = CO_STATUS_DEAD")
      case True
      with rt assms(2) Ev_wait have "reclaim t s = Inr s'" by (simp add: co_wait_def)
      from reclaim_Inr [OF this] assms(3,4) Ev_wait show ?thesis by (auto split: if_splits)
    next
      case False
      let ?s3 = "touch c (\<lambda>r. r\<lparr>jmp_ctx := Some (Site_wait t)\<rparr>)
                  (touch c (\<lambda>r. r\<lparr>status := CO_STATUS_WAITING\<rparr>)
                    (touch t (\<lambda>r. r\<lparr>waiter := Some c\<rparr>) s))"
      from co_wait_live [OF rt False c(1,2)] assms(2) Ev_wait
      have "schedule (Site_wait t) ?s3 = Inr s'" by simp
      then show ?thesis
      proof (rule by_sched)
        show "mid ?s3" using assms(1) c(1) rt False by (rule wait_mid)
      next
        show "heap ?s3 p \<noteq> None" using assms(3) by auto
      next
        fix w rw assume "heap ?s3 w = Some rw" "status rw = CO_STATUS_RUNNING"
        then show "\<exists>r0. heap s w = Some r0 \<and> jmp_ctx r0 = jmp_ctx rw"
          by (cases "w = c"; cases "w = t") auto
      qed
    qed
  next
    case Ev_return
    with assms(2) have ie: "in_entry s" and er: "entry_exit s = Inr s'"
      by (auto split: if_splits)
    from entry_exit_Inr [OF er] obtain x0 l
      where r0: "entry_returned (s\<lparr>on_stack := x0, launch := l\<rparr>) = Inr s'" .
    have "\<exists>w rw. current_co s' = Some w \<and> heap (s\<lparr>on_stack := x0, launch := l\<rparr>) w = Some rw \<and>
            jmp_ctx rw = Some (Site_wait p)"
      by (rule vanish_returned [OF _ _ r0]) (use assms ie in simp_all)
    then show ?thesis by simp
  qed
qed

lemma co_wait_dead:
  assumes "inv s" "heap s t = Some rt" "status rt = CO_STATUS_DEAD"
  shows "co_wait t s =
     Inr (s\<lparr>heap := (heap s)(t := None), co_queue := tl (turn_to t (co_queue s))\<rparr>)"
proof -
  from assms(1,2) have "t \<in> set (co_queue s)" by (auto simp: inv_def struct_ok_def)
  with assms(2,3) show ?thesis by (simp add: co_wait_def reclaim_present)
qed

text \<open>C4, as the code has it: \<open>co_wait\<close> on a target that is already \<open>CO_STATUS_DEAD\<close>
  returns at once, with the target's node unlinked and its record freed; the caller is
  still the running coroutine and no other record has changed.  While the program
  runs, a record is freed only as the target of a \<open>co_wait\<close>: the one just called, or
  the one in which the coroutine that runs now had been suspended.  At the exit of the
  process \<open>co_cleanup\<close> frees every record that is left.\<close>

theorem wait_on_dead_reclaims_at_once:
  assumes "reachable s" "heap s t = Some rt" "status rt = CO_STATUS_DEAD"
  shows "co_wait t s =
           Inr (s\<lparr>heap := (heap s)(t := None), co_queue := tl (turn_to t (co_queue s))\<rparr>) \<and>
         t \<notin> set (tl (turn_to t (co_queue s))) \<and>
         (\<forall>e s' p. fire e s = Inr s' \<and> heap s p \<noteq> None \<and> heap s' p = None \<longrightarrow>
            e = Ev_wait p \<or>
            (\<exists>w rw. current_co s' = Some w \<and> heap s w = Some rw \<and>
               jmp_ctx rw = Some (Site_wait p))) \<and>
         (\<forall>p. heap (co_cleanup s) p = None) \<and> co_queue (co_cleanup s) = []"
proof -
  from assms(1) have i: "inv s" by (rule reachable_inv)
  then have s_ok: "struct_ok s" by (simp add: inv_def)
  with assms(2) have tq: "t \<in> set (co_queue s)" by (auto simp: struct_ok_def)
  from s_ok have "distinct (co_queue s)" by (simp add: struct_ok_def)
  with tl_turn_to [OF tq] have "t \<notin> set (tl (turn_to t (co_queue s)))" by simp
  moreover have "\<forall>p. heap (co_cleanup s) p = None"
    using s_ok by (auto simp: co_cleanup_eq struct_ok_def)
  moreover have "co_queue (co_cleanup s) = []" by (simp add: co_cleanup_eq)
  ultimately show ?thesis using co_wait_dead [OF i assms(2,3)] vanish_fire [OF i] by blast
qed

theorem wait_on_dead_reclaims_at_once_witness:
  "reachable (outcome (run (take 7 demo_wait) co_initialize)) \<and>
   status_of (outcome (run (take 7 demo_wait) co_initialize)) 2 = Some CO_STATUS_DEAD \<and>
   co_queue (outcome (run (take 7 demo_wait) co_initialize)) = [1, 2, 3, 4] \<and>
   current_co (outcome (run (take 7 demo_wait) co_initialize)) = Some 1 \<and>
   returns (co_wait 2 (outcome (run (take 7 demo_wait) co_initialize))) \<and>
   co_queue (outcome (co_wait 2 (outcome (run (take 7 demo_wait) co_initialize)))) = [3, 4, 1] \<and>
   current_co (outcome (co_wait 2 (outcome (run (take 7 demo_wait) co_initialize)))) = Some 1 \<and>
   heap (outcome (co_wait 2 (outcome (run (take 7 demo_wait) co_initialize)))) 2 = None"
proof -
  let ?s = "outcome (run (take 7 demo_wait) co_initialize)"
  have "returns (run (take 7 demo_wait) co_initialize)" by code_simp
  then have r: "reachable ?s" by (rule outcome_reachable)
  have st: "status_of ?s 2 = Some CO_STATUS_DEAD" by code_simp
  then obtain rt where rt: "heap ?s 2 = Some rt" "status rt = CO_STATUS_DEAD"
    by (auto simp: status_of_def)
  have q: "co_queue ?s = [1, 2, 3, 4]" by code_simp
  have cur: "current_co ?s = Some 1" by code_simp
  from wait_on_dead_reclaims_at_once [OF r rt]
  have "co_wait 2 ?s =
      Inr (?s\<lparr>heap := (heap ?s)(2 := None), co_queue := tl (turn_to 2 (co_queue ?s))\<rparr>)"
    by blast
  then have "co_wait 2 ?s = Inr (?s\<lparr>heap := (heap ?s)(2 := None), co_queue := [3, 4, 1]\<rparr>)"
    by (simp add: q turn_to_def)
  with r st q cur show ?thesis by (simp add: returns_def outcome_def)
qed

text \<open>C4, as the specification has it, fails: the destructor frees records that no
  \<open>co_wait\<close> has been called for.\<close>

theorem cleanup_destroys_records:
  "status_of (outcome (run spawn3 co_initialize)) 2 = Some CO_STATUS_NEW \<and>
   status_of (co_cleanup (outcome (run spawn3 co_initialize))) 2 = None \<and>
   status_of (co_cleanup (outcome (run spawn3 co_initialize))) 1 = None \<and>
   co_queue (co_cleanup (outcome (run spawn3 co_initialize))) = []"
  by (simp add: co_cleanup_eq status_of_def spawn3_def co_start_eq co_initialize_eq outcome_def)

subsection \<open>The head of the queue\<close>



lemma co_yield_scan:
  assumes "inv s" "current_co s = Some c"
  shows "co_yield s =
     (case find (can_run (heap s)) (scan_order (co_queue s)) of
        None \<Rightarrow> Inl Exit_0
      | Some n \<Rightarrow> transfer Site_user n
          ((touch c (\<lambda>r. r\<lparr>jmp_ctx := Some Site_user\<rparr>) s)
             \<lparr>co_queue := turn_to n (scan_order (co_queue s)), current_co := Some n\<rparr>))"
proof -
  let ?s1 = "touch c (\<lambda>r. r\<lparr>jmp_ctx := Some Site_user\<rparr>) s"
  from inv_current [OF assms(1)] assms(2) obtain rc where rc: "heap s c = Some rc"
    by (metis option.inject)
  have m1: "mid ?s1" using save_user_mid [OF assms] .
  then have "struct_ok ?s1" by (simp add: mid_def)
  then have "co_queue ?s1 \<noteq> []" "\<forall>p \<in> set (co_queue ?s1). heap ?s1 p \<noteq> None"
    unfolding struct_ok_def by (metis empty_iff empty_set option.distinct(1), blast)
  from schedule_scan [OF this, of Site_user] yield_from_touch [OF assms(2) rc, of Site_user]
  have "co_yield s =
     (case find (can_run (heap ?s1)) (scan_order (co_queue s)) of
        None \<Rightarrow> Inl Exit_0
      | Some n \<Rightarrow> transfer Site_user n
          (?s1\<lparr>co_queue := turn_to n (scan_order (co_queue s)), current_co := Some n\<rparr>))"
    by (simp add: co_yield_def cong: option.case_cong)
  moreover have "can_run (heap ?s1) = can_run (heap s)"
    by (auto simp: fun_eq_iff can_run_def eligible_def split: option.splits)
  ultimately show ?thesis by simp
qed







lemma head_schedule:
  assumes "mid s" "schedule site s = Inr s'" "\<forall>p. heap s p \<noteq> None \<longrightarrow> heap s' p \<noteq> None"
  shows "\<exists>n rest. current_co s' = Some n \<and> co_queue s' = n # rest"
proof -
  have hd: "\<exists>rest. turn_to n (scan_order (co_queue s)) = n # rest" if "heap s n = Some r" for n r
  proof -
    from assms(1) that have "n \<in> set (scan_order (co_queue s))"
      by (auto simp: mid_def struct_ok_def scan_order_set)
    then show ?thesis by (rule turn_to_head)
  qed
  from assms(2,1) show ?thesis
  proof (cases rule: schedule_Inr)
    case (user n q r)
    with hd [OF user(3)] show ?thesis by auto
  next
    case (wait n q r t)
    from reclaim_Inr [OF wait(6)] have "heap s t \<noteq> None" "heap s' t = None" by simp_all
    with assms(3) show ?thesis by blast
  next
    case (first n q r)
    with hd [OF first(3)] show ?thesis by auto
  qed
qed

lemma head_returned:
  assumes "inv s" "in_entry s" "entry_returned s = Inr s'"
    "\<forall>p. heap s p \<noteq> None \<longrightarrow> heap s' p \<noteq> None"
  shows "\<exists>n rest. current_co s' = Some n \<and> co_queue s' = n # rest"
proof -
  from assms(1) obtain c rc where c: "current_co s = Some c" "heap s c = Some rc"
    by (auto elim: inv_current)
  let ?s3 = "touch c (\<lambda>r. r\<lparr>jmp_ctx := Some Site_exit\<rparr>)
              (wake (waiter rc) (touch c (\<lambda>r. r\<lparr>status := CO_STATUS_DEAD\<rparr>) s))"
  from entry_returned_touch [OF c exit_mid(2) [OF assms(1,2) c]] assms(3)
  have sch: "schedule Site_exit ?s3 = Inr s'" by simp
  have "heap s p \<noteq> None" if "heap ?s3 p \<noteq> None" for p
    using that by (cases "waiter rc") (auto split: if_splits)
  with assms(4) have "\<forall>p. heap ?s3 p \<noteq> None \<longrightarrow> heap s' p \<noteq> None" by blast
  with exit_mid(1) [OF assms(1,2) c] sch show ?thesis by (rule head_schedule)
qed

lemma head_fire:
  assumes "inv s" "fire e s = Inr s'" "\<forall>p. heap s p \<noteq> None \<longrightarrow> heap s' p \<noteq> None"
    "\<forall>nm f a. e \<noteq> Ev_start nm f a"
  shows "\<exists>n rest. current_co s' = Some n \<and> co_queue s' = n # rest"
proof -
  from assms(1) obtain c rc where c: "current_co s = Some c" "heap s c = Some rc"
    by (auto elim: inv_current)
  show ?thesis
  proof (cases e)
    case (Ev_start nm f a)
    with assms(4) show ?thesis by simp
  next
    case Ev_yield
    let ?s1 = "touch c (\<lambda>r. r\<lparr>jmp_ctx := Some Site_user\<rparr>) s"
    from assms(2) Ev_yield yield_from_touch [OF c, of Site_user]
    have sch: "schedule Site_user ?s1 = Inr s'" by (simp add: co_yield_def)
    have "heap s p \<noteq> None" if "heap ?s1 p \<noteq> None" for p
      using that by (auto split: if_splits)
    with assms(3) have "\<forall>p. heap ?s1 p \<noteq> None \<longrightarrow> heap s' p \<noteq> None" by blast
    with save_user_mid [OF assms(1) c(1)] sch show ?thesis by (rule head_schedule)
  next
    case (Ev_wait t)
    with assms(2) obtain rt where rt: "heap s t = Some rt"
      by (auto simp: co_wait_def split: option.splits)
    show ?thesis
    proof (cases "status rt = CO_STATUS_DEAD")
      case True
      with rt assms(2) Ev_wait have "reclaim t s = Inr s'" by (simp add: co_wait_def)
      from reclaim_Inr [OF this] have "heap s t \<noteq> None" "heap s' t = None" by simp_all
      with assms(3) show ?thesis by blast
    next
      case False
      let ?s3 = "touch c (\<lambda>r. r\<lparr>jmp_ctx := Some (Site_wait t)\<rparr>)
                  (touch c (\<lambda>r. r\<lparr>status := CO_STATUS_WAITING\<rparr>)
                    (touch t (\<lambda>r. r\<lparr>waiter := Some c\<rparr>) s))"
      from co_wait_live [OF rt False c] assms(2) Ev_wait
      have sch: "schedule (Site_wait t) ?s3 = Inr s'" by simp
      have "heap s p \<noteq> None" if "heap ?s3 p \<noteq> None" for p
        using that by (auto split: if_splits)
      with assms(3) have "\<forall>p. heap ?s3 p \<noteq> None \<longrightarrow> heap s' p \<noteq> None" by blast
      with wait_mid [OF assms(1) c(1) rt False] sch show ?thesis by (rule head_schedule)
    qed
  next
    case Ev_return
    with assms(2) have ie: "in_entry s" and er: "entry_exit s = Inr s'"
      by (auto split: if_splits)
    from entry_exit_Inr [OF er] obtain x0 l
      where r0: "entry_returned (s\<lparr>on_stack := x0, launch := l\<rparr>) = Inr s'" .
    show ?thesis
      by (rule head_returned [OF _ _ r0]) (use assms ie in simp_all)
  qed
qed

text \<open>C6, as the code has it.  The order of scheduling is the order of the links, from
  the head of the queue.  \<open>co_start\<close> links the new node in front of the head, so that the
  next scan reaches it after every other record and before the head only.  \<open>co_yield\<close>
  transfers to the first record after the head that is \<open>CO_STATUS_RUNNING\<close> or
  \<open>CO_STATUS_NEW\<close>, the head being the last one tested.  After a call that is not a
  \<open>co_start\<close> and frees no record, the head is the node of the coroutine that runs.\<close>

theorem round_robin_from_the_head:
  assumes "reachable s"
  shows "(\<forall>nm f a.
            co_queue (snd (co_start nm f a s)) = co_queue s @ [fst (co_start nm f a s)] \<and>
            scan_order (co_queue (snd (co_start nm f a s))) =
              tl (co_queue s) @ [fst (co_start nm f a s), hd (co_queue s)]) \<and>
         (\<exists>c. current_co s = Some c \<and>
            co_yield s =
              (case find (can_run (heap s)) (scan_order (co_queue s)) of
                 None \<Rightarrow> Inl Exit_0
               | Some n \<Rightarrow> transfer Site_user n
                   ((touch c (\<lambda>r. r\<lparr>jmp_ctx := Some Site_user\<rparr>) s)
                      \<lparr>co_queue := turn_to n (scan_order (co_queue s)),
                       current_co := Some n\<rparr>))) \<and>
         (\<forall>e s'. fire e s = Inr s' \<and> (\<forall>p. heap s p \<noteq> None \<longrightarrow> heap s' p \<noteq> None) \<and>
              (\<forall>nm f a. e \<noteq> Ev_start nm f a) \<longrightarrow>
            (\<exists>n rest. current_co s' = Some n \<and> co_queue s' = n # rest))"
proof -
  from assms have i: "inv s" by (rule reachable_inv)
  then obtain c rc where c: "current_co s = Some c" "heap s c = Some rc"
    by (auto elim: inv_current)
  from i c have ne: "co_queue s \<noteq> []" by (auto simp: inv_def struct_ok_def)
  have a: "co_queue (snd (co_start nm f a s)) = co_queue s @ [fst (co_start nm f a s)] \<and>
            scan_order (co_queue (snd (co_start nm f a s))) =
              tl (co_queue s) @ [fst (co_start nm f a s), hd (co_queue s)]" for nm f a
    using ne by (cases "co_queue s") (simp_all add: co_start_eq scan_order_def)
  from a c(1) co_yield_scan [OF i c(1)] head_fire [OF i] show ?thesis by blast
qed

theorem round_robin_from_the_head_witness:
  "reachable (outcome (run demo_wait co_initialize)) \<and>
   co_queue (outcome (run demo_wait co_initialize)) = [3, 4, 1] \<and>
   co_queue (snd (co_start ''D'' (Some 13) (Some 103) (outcome (run demo_wait co_initialize)))) =
     [3, 4, 1, 5] \<and>
   scan_order
     (co_queue (snd (co_start ''D'' (Some 13) (Some 103) (outcome (run demo_wait co_initialize))))) =
     [4, 1, 5, 3] \<and>
   current_co (outcome (fire Ev_yield (outcome (run demo_wait co_initialize)))) = Some 4 \<and>
   (\<exists>rest. co_queue (outcome (fire Ev_yield (outcome (run demo_wait co_initialize)))) = 4 # rest)"
proof -
  let ?s = "outcome (run demo_wait co_initialize)"
  let ?s' = "outcome (fire Ev_yield ?s)"
  have r: "reachable ?s" using wait_returns by (rule outcome_reachable)
  have q: "co_queue ?s = [3, 4, 1]" by code_simp
  have b: "fst (co_start ''D'' (Some 13) (Some 103) ?s) = 5" by code_simp
  note t = round_robin_from_the_head [OF r]
  from t have "co_queue (snd (co_start ''D'' (Some 13) (Some 103) ?s)) =
        co_queue ?s @ [fst (co_start ''D'' (Some 13) (Some 103) ?s)] \<and>
      scan_order (co_queue (snd (co_start ''D'' (Some 13) (Some 103) ?s))) =
        tl (co_queue ?s) @ [fst (co_start ''D'' (Some 13) (Some 103) ?s), hd (co_queue ?s)]"
    by blast
  then have a: "co_queue (snd (co_start ''D'' (Some 13) (Some 103) ?s)) = [3, 4, 1, 5] \<and>
      scan_order (co_queue (snd (co_start ''D'' (Some 13) (Some 103) ?s))) = [4, 1, 5, 3]"
    by (simp add: q b scan_order_def)
  have "returns (fire Ev_yield ?s)" by code_simp
  then have f: "fire Ev_yield ?s = Inr ?s'" by (rule outcome_Inr)
  have cur: "current_co ?s' = Some 4" by code_simp
  have "\<forall>p. (heap ?s p \<noteq> None) = (p \<in> set (co_queue ?s))"
    using reachable_inv [OF r] by (simp add: inv_def struct_ok_def)
  moreover have "heap ?s' 3 \<noteq> None" "heap ?s' 4 \<noteq> None" "heap ?s' 1 \<noteq> None" by code_simp+
  ultimately have keep: "\<forall>p. heap ?s p \<noteq> None \<longrightarrow> heap ?s' p \<noteq> None" by (auto simp: q)
  have "\<forall>nm f a. Ev_yield \<noteq> Ev_start nm f a" by simp
  with t f keep have "\<exists>n rest. current_co ?s' = Some n \<and> co_queue ?s' = n # rest" by blast
  with cur have "\<exists>rest. co_queue ?s' = 4 # rest" by auto
  with r q a cur show ?thesis by blast
qed

text \<open>C6, as the specification has it, fails.  After the primordial flow has waited
  for the dead A, the circle is B, C, primordial with B as head.  The primordial flow
  yields: C runs, then the primordial flow again, while B is \<open>CO_STATUS_RUNNING\<close> and
  next to the primordial flow in the circle.  And a coroutine D started at that point
  runs before B, which was created earlier.\<close>

theorem wait_breaks_round_robin:
  "co_queue (outcome (run demo_wait co_initialize)) = [3, 4, 1] \<and>
   current_co (outcome (run demo_wait co_initialize)) = Some 1 \<and>
   status_of (outcome (run demo_wait co_initialize)) 3 = Some CO_STATUS_RUNNING \<and>
   trace [Ev_yield, Ev_yield] (outcome (run demo_wait co_initialize)) = [Some 4, Some 1] \<and>
   trace [Ev_start ''D'' (Some 13) (Some 103), Ev_yield, Ev_yield, Ev_yield, Ev_yield]
     (outcome (run demo_wait co_initialize)) = [Some 1, Some 4, Some 1, Some 5, Some 3]"
  by code_simp

text \<open>C7, as the code has it: \<open>co_wait\<close> does not read the \<open>waiter\<close> field of a live
  target before it stores the caller there (line 187), so what the call does is the same
  whatever waiter was registered before, and it is what the call does for a target that
  has no waiter.\<close>

theorem second_waiter_overwrites:
  assumes "heap s t = Some rt" "status rt \<noteq> CO_STATUS_DEAD"
  shows "co_wait t (s\<lparr>heap := (heap s)(t \<mapsto> rt\<lparr>waiter := w0\<rparr>)\<rparr>) = co_wait t s"
  using assms by (simp add: co_wait_def)

theorem second_waiter_overwrites_witness:
  "heap skip_demo 3 = Some \<lparr>name = ''B'', func = Some 11, arg = Some 101,
       status = CO_STATUS_RUNNING, waiter = None, jmp_ctx = Some Site_user\<rparr> \<and>
   co_wait 3 (skip_demo\<lparr>heap := (heap skip_demo)(3 \<mapsto> \<lparr>name = ''B'', func = Some 11,
       arg = Some 101, status = CO_STATUS_RUNNING, waiter = Some 2,
       jmp_ctx = Some Site_user\<rparr>)\<rparr>) = co_wait 3 skip_demo"
proof -
  let ?r = "\<lparr>name = ''B'', func = Some 11, arg = Some 101,
       status = CO_STATUS_RUNNING, waiter = None, jmp_ctx = Some Site_user\<rparr>"
  have h: "heap skip_demo 3 = Some ?r" by (simp add: skip_demo_def)
  have "status ?r \<noteq> CO_STATUS_DEAD" by simp
  from second_waiter_overwrites [OF h this, of "Some 2"] h show ?thesis by simp
qed

text \<open>C7, as the specification has it, fails.  A waits for the new C, then B waits for
  C: the second call is not stopped, it returns to the program with B in the \<open>waiter\<close>
  field in the place of A.  The program runs on: C returns, B reclaims it, and A is still
  \<open>CO_STATUS_WAITING\<close>.\<close>

theorem second_waiter_is_not_detected:
  "current_co (outcome (run (take 5 demo_two) co_initialize)) = Some 3 \<and>
   map_option waiter (heap (outcome (run (take 5 demo_two) co_initialize)) 4) = Some (Some 2) \<and>
   status_of (outcome (run (take 5 demo_two) co_initialize)) 4 = Some CO_STATUS_NEW \<and>
   returns (co_wait 4 (outcome (run (take 5 demo_two) co_initialize))) \<and>
   map_option waiter
     (heap (outcome (co_wait 4 (outcome (run (take 5 demo_two) co_initialize)))) 4) =
     Some (Some 3) \<and>
   returns (run demo_two co_initialize) \<and>
   status_of (outcome (run demo_two co_initialize)) 2 = Some CO_STATUS_WAITING \<and>
   status_of (outcome (run demo_two co_initialize)) 4 = None"
  by code_simp

subsection \<open>The example state\<close>

lemma skip_demo_reachable: "reachable skip_demo"
proof -
  have "run [Ev_start ''A'' (Some 10) (Some 100), Ev_start ''B'' (Some 11) (Some 101),
             Ev_yield, Ev_wait 1, Ev_yield] co_initialize = Inr skip_demo"
    by (simp add: co_initialize_eq co_start_eq co_yield_def co_wait_def yield_from_def
        schedule_def transfer_def yield_returns_def eligible_def skip_demo_def Let_def
        resume_stack_def switch_stack_def store_251_def fun_eq_iff)
  then show ?thesis unfolding reachable_def by blast
qed

end
